theory Spec2Isabelle
  imports Main
begin

section \<open>Geometry kernel of untangle.c\<close>

text \<open>
  \<^verbatim>\<open>typedef struct point { int x, y, d; } point;\<close>
  Points have rational coordinates \<open>x/d\<close>, \<open>y/d\<close> over one denominator. The fields are
  C \<^verbatim>\<open>int\<close>s; they are modelled as mathematical integers, that is, in the range where
  no product or sum of \<^verbatim>\<open>cross\<close> overflows (signed overflow is undefined in C).
  The one-letter field names of the source carry the struct's name as a prefix here.
\<close>

record point =
  point_x :: int
  point_y :: int
  point_d :: int

abbreviation Pt :: "int \<Rightarrow> int \<Rightarrow> int \<Rightarrow> point" where
  "Pt x y d \<equiv> \<lparr>point_x = x, point_y = y, point_d = d\<rparr>"

text \<open>
  The last stage of \<^verbatim>\<open>cross\<close> (source lines 265-279): are \<open>a1\<close> and \<open>a2\<close> strictly on
  the same side of the line through \<open>b1\<close> and \<open>b2\<close>?
\<close>

definition cross_other_way :: "point \<Rightarrow> point \<Rightarrow> point \<Rightarrow> point \<Rightarrow> bool" where
  "cross_other_way a1 a2 b1 b2 =
    (let b1x = point_x a1 * point_d b1 - point_x b1 * point_d a1;
         b1y = point_y a1 * point_d b1 - point_y b1 * point_d a1;
         b2x = point_x a2 * point_d b1 - point_x b1 * point_d a2;
         b2y = point_y a2 * point_d b1 - point_y b1 * point_d a2;
         px = point_y b1 * point_d b2 - point_y b2 * point_d b1;
         py = point_x b2 * point_d b1 - point_x b1 * point_d b2;
         d1 = b1x * px + b1y * py;
         d2 = b2x * px + b2y * py
     in if (d1 > 0 \<and> d2 > 0) \<or> (d1 < 0 \<and> d2 < 0) then False else True)"

text \<open>
  The collinear special case (source lines 241-257): \<open>True\<close> when the source returns
  \<^verbatim>\<open>FALSE\<close> from inside that block. \<open>b1x\<close>, \<open>b1y\<close>, \<open>b2x\<close>, \<open>b2y\<close> are the values
  computed by the first stage.
\<close>

definition collinear_apart :: "point \<Rightarrow> point \<Rightarrow> int \<Rightarrow> int \<Rightarrow> int \<Rightarrow> int \<Rightarrow> bool" where
  "collinear_apart a1 a2 b1x b1y b2x b2y =
    (let px = point_x a2 * point_d a1 - point_x a1 * point_d a2;
         py = point_y a2 * point_d a1 - point_y a1 * point_d a2;
         d1 = b1x * px + b1y * py;
         d2 = b2x * px + b2y * py
     in if d1 < 0 \<and> d2 < 0 then True
        else (let d3 = px * px + py * py
              in if d1 > d3 \<and> d2 > d3 then True else False))"

definition cross :: "point \<Rightarrow> point \<Rightarrow> point \<Rightarrow> point \<Rightarrow> bool" where
  "cross a1 a2 b1 b2 =
    (let b1x = point_x b1 * point_d a1 - point_x a1 * point_d b1;
         b1y = point_y b1 * point_d a1 - point_y a1 * point_d b1;
         b2x = point_x b2 * point_d a1 - point_x a1 * point_d b2;
         b2y = point_y b2 * point_d a1 - point_y a1 * point_d b2;
         px = point_y a1 * point_d a2 - point_y a2 * point_d a1;
         py = point_x a2 * point_d a1 - point_x a1 * point_d a2;
         d1 = b1x * px + b1y * py;
         d2 = b2x * px + b2y * py
     in if (d1 > 0 \<and> d2 > 0) \<or> (d1 < 0 \<and> d2 < 0) then False
        else if d1 = 0 \<and> d2 = 0 \<and> collinear_apart a1 a2 b1x b1y b2x b2y then False
        else cross_other_way a1 a2 b1 b2)"


section \<open>C strings and the conversions of the C library\<close>

text \<open>
  A C string is modelled by the list of its characters before the terminating NUL, so
  \<^verbatim>\<open>*s == 0\<close> is \<open>s = []\<close> and \<^verbatim>\<open>s++\<close> is \<open>tl s\<close>. \<^verbatim>\<open>isdigit\<close>, \<^verbatim>\<open>atoi\<close>, the
  \<^verbatim>\<open>%d\<close> conversions of \<^verbatim>\<open>sscanf\<close> and \<^verbatim>\<open>sprintf\<close> belong to the C library; they are
  modelled after the C standard ("C" locale), with values as mathematical integers
  (a digit string beyond the range of \<^verbatim>\<open>int\<close> is undefined behaviour in C).
\<close>

definition isdigit_c :: "char \<Rightarrow> bool" where
  "isdigit_c c = (c \<in> set ''0123456789'')"

definition isspace_c :: "char \<Rightarrow> bool" where
  "isspace_c c = (c \<in> {CHR '' '', CHR 0x09, CHR 0x0A, CHR 0x0B, CHR 0x0C, CHR 0x0D})"

definition digit_val :: "char \<Rightarrow> int" where
  "digit_val c = int (of_char c) - 48"

text \<open>A non-empty run of decimal digits: its value and the rest of the string.\<close>

definition scan_digits :: "string \<Rightarrow> (int \<times> string) option" where
  "scan_digits s =
    (let ds = takeWhile isdigit_c s
     in if ds = [] then None
        else Some (foldl (\<lambda>v c. 10 * v + digit_val c) 0 ds, dropWhile isdigit_c s))"

text \<open>
  One \<^verbatim>\<open>%d\<close> conversion, which is also the number \<^verbatim>\<open>strtol\<close> reads in base 10: white
  space is skipped, a sign is optional, at least one digit is required.
\<close>

definition scan_int :: "string \<Rightarrow> (int \<times> string) option" where
  "scan_int s =
    (case dropWhile isspace_c s of
       [] \<Rightarrow> None
     | c # cs \<Rightarrow>
         if c = CHR ''-'' then map_option (\<lambda>(v, r). (- v, r)) (scan_digits cs)
         else if c = CHR ''+'' then scan_digits cs
         else scan_digits (c # cs))"


text \<open>A literal character of a \<^verbatim>\<open>scanf\<close> format: it must be the next character.\<close>

definition expect_char :: "char \<Rightarrow> string \<Rightarrow> string option" where
  "expect_char c s = (case s of [] \<Rightarrow> None | x # r \<Rightarrow> if x = c then Some r else None)"

text \<open>
  \<^verbatim>\<open>sscanf(s, "%d:%d,%d/%d%n", &p, &x, &y, &d, &k) == 4\<close>: the result is \<open>Some\<close> exactly when
  the call returns 4, with the four numbers and the count \<open>k\<close> of characters read that
  \<^verbatim>\<open>%n\<close> stores.
\<close>

definition sscanf_point :: "string \<Rightarrow> (int \<times> int \<times> int \<times> int \<times> nat) option" where
  "sscanf_point s =
    (case scan_int s of None \<Rightarrow> None | Some (p, s1) \<Rightarrow>
     case expect_char CHR '':'' s1 of None \<Rightarrow> None | Some s2 \<Rightarrow>
     case scan_int s2 of None \<Rightarrow> None | Some (x, s3) \<Rightarrow>
     case expect_char CHR '','' s3 of None \<Rightarrow> None | Some s4 \<Rightarrow>
     case scan_int s4 of None \<Rightarrow> None | Some (y, s5) \<Rightarrow>
     case expect_char CHR ''/'' s5 of None \<Rightarrow> None | Some s6 \<Rightarrow>
     case scan_int s6 of None \<Rightarrow> None | Some (d, s7) \<Rightarrow>
       Some (p, x, y, d, length s - length s7))"

text \<open>What \<^verbatim>\<open>sprintf\<close> writes for \<^verbatim>\<open>%d\<close>.\<close>

definition digit_char :: "nat \<Rightarrow> char" where
  "digit_char k = ''0123456789'' ! k"

fun digits_of :: "nat \<Rightarrow> string" where
  "digits_of k = (if k < 10 then [digit_char k] else digits_of (k div 10) @ [digit_char (k mod 10)])"

declare digits_of.simps [simp del]

definition sprintf_d :: "int \<Rightarrow> string" where
  "sprintf_d i = (if i < 0 then CHR ''-'' # digits_of (nat (- i)) else digits_of (nat i))"

section \<open>Edges and the game description\<close>

text \<open>\<^verbatim>\<open>typedef struct edge { int a, b; } edge;\<close>\<close>

record edge =
  edge_a :: int
  edge_b :: int

abbreviation Edge :: "int \<Rightarrow> int \<Rightarrow> edge" where
  "Edge a b \<equiv> \<lparr>edge_a = a, edge_b = b\<rparr>"

definition edgecmpC :: "edge \<Rightarrow> edge \<Rightarrow> int" where
  "edgecmpC a b =
    (if edge_a a < edge_a b then - 1
     else if edge_a a > edge_a b then 1
     else if edge_b a < edge_b b then - 1
     else if edge_b a > edge_b b then 1
     else 0)"




section \<open>Game states on the heap\<close>

text \<open>
  Modelled from the spec: the 2-3-4 tree of \<^verbatim>\<open>struct graph { int refcount; tree234 *edges; }\<close>
  (\<^verbatim>\<open>tree234.c\<close> is not among the source files). The spec calls the graph the set of
  accepted edges, kept in order. The tree is sorted by \<^verbatim>\<open>edgecmp\<close> and
  \<^verbatim>\<open>execute_move\<close> reads it with \<^verbatim>\<open>index234\<close> only; it is the list of its elements in
  that order, \<^verbatim>\<open>index234(t, i)\<close> being the \<open>i\<close>-th element, or \<^verbatim>\<open>NULL\<close> from the length of
  the list on.
\<close>

record graph =
  refcount :: int
  edges :: "edge list"

text \<open>
  \<^verbatim>\<open>struct game_state\<close>. The array \<^verbatim>\<open>pts\<close> is allocated with the state and owned by it
  alone, so it is part of the state's value; the graph is shared between states and is
  held by its address. The flags are C \<^verbatim>\<open>int\<close>s that only ever hold \<^verbatim>\<open>TRUE\<close> or \<^verbatim>\<open>FALSE\<close>.
\<close>

record game_state =
  params_n :: int
  state_w :: int
  state_h :: int
  pts :: "point list"
  graph :: nat
  completed :: bool
  cheated :: bool
  just_solved :: bool

record heap =
  states :: "nat \<rightharpoonup> game_state"
  graphs :: "nat \<rightharpoonup> graph"

text \<open>
  \<^verbatim>\<open>dup_game\<close>. \<open>new\<close> is the address \<^verbatim>\<open>snew(game_state)\<close> returns. The result is \<open>None\<close>
  where the C program reads through a dangling pointer or past the end of \<^verbatim>\<open>state->pts\<close>.
\<close>

definition dup_game :: "heap \<Rightarrow> nat \<Rightarrow> nat \<Rightarrow> heap option" where
  "dup_game hp new sp =
    (case states hp sp of
       None \<Rightarrow> None
     | Some state \<Rightarrow>
        (case graphs hp (graph state) of
           None \<Rightarrow> None
         | Some g \<Rightarrow>
            if length (pts state) < nat (params_n state) then None
            else Some (hp\<lparr>states := (states hp)
                             (new \<mapsto> state\<lparr>pts := take (nat (params_n state)) (pts state)\<rparr>),
                           graphs := (graphs hp)
                             (graph state \<mapsto> g\<lparr>refcount := refcount g + 1\<rparr>)\<rparr>)))"

definition free_game :: "heap \<Rightarrow> nat \<Rightarrow> heap option" where
  "free_game hp sp =
    (case states hp sp of
       None \<Rightarrow> None
     | Some state \<Rightarrow>
        (case graphs hp (graph state) of
           None \<Rightarrow> None
         | Some g \<Rightarrow>
            Some (hp\<lparr>states := (states hp)(sp := None),
                      graphs :=
                        (if refcount g - 1 \<le> 0 then (graphs hp)(graph state := None)
                         else (graphs hp)(graph state \<mapsto> g\<lparr>refcount := refcount g - 1\<rparr>))\<rparr>)))"

section \<open>The completion check\<close>

definition shares_endpoint :: "edge \<Rightarrow> edge \<Rightarrow> bool" where
  "shares_endpoint e2 e =
    (edge_a e2 = edge_a e \<or> edge_a e2 = edge_b e \<or> edge_b e2 = edge_a e \<or> edge_b e2 = edge_b e)"

text \<open>
  The two nested loops over the edge tree, which \<^verbatim>\<open>execute_move\<close> (lines 889-900) and
  the scrambler of \<^verbatim>\<open>new_game_desc\<close> (lines 533-544) both run. \<open>pos v\<close> is the point
  the loop reads for vertex \<open>v\<close>: \<^verbatim>\<open>ret->pts[v]\<close> in the first, \<^verbatim>\<open>pts2[tmp[v]]\<close> in the
  second. \<open>inner_scan\<close> is the loop over \<open>j\<close>, from the element after \<open>e\<close>; it is true
  when the loop is left by \<^verbatim>\<open>break\<close> (\<^verbatim>\<open>e2 != NULL\<close>); \<open>find_crossing\<close> is the loop over
  \<open>i\<close>, true when it is left by \<^verbatim>\<open>break\<close> (\<^verbatim>\<open>e != NULL\<close>).
\<close>

fun inner_scan :: "(int \<Rightarrow> point) \<Rightarrow> edge \<Rightarrow> edge list \<Rightarrow> bool" where
  "inner_scan pos e [] = False"
| "inner_scan pos e (e2 # es) =
    (if shares_endpoint e2 e then inner_scan pos e es
     else if cross (pos (edge_a e2)) (pos (edge_b e2)) (pos (edge_a e)) (pos (edge_b e)) then True
     else inner_scan pos e es)"

fun find_crossing :: "(int \<Rightarrow> point) \<Rightarrow> edge list \<Rightarrow> bool" where
  "find_crossing pos [] = False"
| "find_crossing pos (e # es) = (if inner_scan pos e es then True else find_crossing pos es)"

section \<open>Applying a move\<close>

definition skip_semicolon :: "string \<Rightarrow> string" where
  "skip_semicolon move = (case move of [] \<Rightarrow> [] | c # cs \<Rightarrow> if c = CHR '';'' then cs else c # cs)"

text \<open>
  One turn of the \<^verbatim>\<open>while (*move)\<close> loop of \<^verbatim>\<open>execute_move\<close> (lines 861-878), on the
  state \<open>ret\<close> that only this call holds so far: the new \<open>ret\<close> and the new \<open>move\<close>, or
  \<open>None\<close> when the loop is left through \<^verbatim>\<open>free_game(ret); return NULL\<close>.
\<close>

definition move_step :: "int \<Rightarrow> game_state \<Rightarrow> string \<Rightarrow> (game_state \<times> string) option" where
  "move_step n ret move =
    (let (ret1, move1) =
       (case move of
          [] \<Rightarrow> (ret, move)
        | c # cs \<Rightarrow>
            if c = CHR ''S''
            then (ret\<lparr>cheated := True, just_solved := True\<rparr>, skip_semicolon cs)
            else (ret, move))
     in case move1 of
          [] \<Rightarrow> None
        | c1 # rest \<Rightarrow>
            if c1 = CHR ''P'' then
              (case sscanf_point rest of
                 None \<Rightarrow> None
               | Some (p, x, y, d, k) \<Rightarrow>
                   if p \<ge> 0 \<and> p < n \<and> d > 0
                   then Some (ret1\<lparr>pts := (pts ret1)[nat p := Pt x y d]\<rparr>,
                              skip_semicolon (drop (k + 1) move1))
                   else None)
            else None)"

lemma length_skip_semicolon: "length (skip_semicolon s) \<le> length s"
  by (simp add: skip_semicolon_def split: list.split)

lemma move_step_shorter:
  assumes "move_step n ret move = Some (ret', move')"
  shows "length move' < length move"
proof -
  obtain ret1 move1 where m1: "(ret1, move1) =
       (case move of
          [] \<Rightarrow> (ret, move)
        | c # cs \<Rightarrow>
            if c = CHR ''S''
            then (ret\<lparr>cheated := True, just_solved := True\<rparr>, skip_semicolon cs)
            else (ret, move))"
    by (metis surj_pair)
  have le: "length move1 \<le> length move"
    using m1 length_skip_semicolon [of "tl move"] by (auto split: list.splits if_splits)
  from assms m1 [symmetric] obtain k where "move1 \<noteq> []" "move' = skip_semicolon (drop (k + 1) move1)"
    by (auto simp: move_step_def split: list.splits if_splits option.splits)
  then have "length move' < length move1"
    using length_skip_semicolon [of "drop (k + 1) move1"] by (cases move1) auto
  with le show ?thesis by simp
qed

function move_loop :: "int \<Rightarrow> game_state \<Rightarrow> string \<Rightarrow> game_state option" where
  "move_loop n ret [] = Some ret"
| "move_loop n ret (c # cs) =
    (case move_step n ret (c # cs) of
       None \<Rightarrow> None
     | Some (ret', move') \<Rightarrow> move_loop n ret' move')"
  by pat_completeness auto
termination
  by (relation "measure (\<lambda>(n, ret, move). length move)") (auto dest: move_step_shorter)

text \<open>
  \<^verbatim>\<open>execute_move\<close>. The result is the heap after the call and the pointer returned
  (\<open>None\<close> for \<^verbatim>\<open>NULL\<close>); it is \<open>None\<close> altogether where the C program reads through a
  dangling pointer. \<open>new\<close> is the address of the state that \<^verbatim>\<open>dup_game\<close> allocates.
\<close>

definition execute_move :: "heap \<Rightarrow> nat \<Rightarrow> nat \<Rightarrow> string \<Rightarrow> (heap \<times> nat option) option" where
  "execute_move hp new sp move =
    (case states hp sp of
       None \<Rightarrow> None
     | Some state \<Rightarrow>
        (case dup_game hp new sp of
           None \<Rightarrow> None
         | Some hp1 \<Rightarrow>
            (case states hp1 new of
               None \<Rightarrow> None
             | Some ret \<Rightarrow>
                (case move_loop (params_n state) (ret\<lparr>just_solved := False\<rparr>) move of
                   None \<Rightarrow> map_option (\<lambda>hp2. (hp2, None)) (free_game hp1 new)
                 | Some ret1 \<Rightarrow>
                    if \<not> completed ret1 then
                      (case graphs hp1 (graph ret1) of
                         None \<Rightarrow> None
                       | Some g \<Rightarrow>
                           Some (hp1\<lparr>states := (states hp1)
                                   (new \<mapsto> ret1\<lparr>completed :=
                                      \<not> find_crossing (\<lambda>v. pts ret1 ! nat v) (edges g)\<rparr>)\<rparr>,
                                 Some new))
                    else Some (hp1\<lparr>states := (states hp1)(new \<mapsto> ret1)\<rparr>, Some new)))))"

text \<open>The state a call returned, read from the heap it left.\<close>

definition returned_state :: "(heap \<times> nat option) option \<Rightarrow> game_state option" where
  "returned_state r =
    (case r of
       None \<Rightarrow> None
     | Some (hp, None) \<Rightarrow> None
     | Some (hp, Some p) \<Rightarrow> states hp p)"


section \<open>Well-formed games and malformed moves\<close>

text \<open>
  What \<^verbatim>\<open>new_game\<close> establishes for a state and its graph, and every accepted move
  keeps: the point array has \<open>n\<close> elements, the graph is referenced, and every edge joins
  two vertices below \<open>n\<close>, the lower one first. Under it every array read of
  \<^verbatim>\<open>execute_move\<close> is in range.
\<close>

definition game_ok :: "game_state \<Rightarrow> graph \<Rightarrow> bool" where
  "game_ok state g =
    (length (pts state) = nat (params_n state) \<and> 1 \<le> refcount g \<and>
     list_all (\<lambda>e. 0 \<le> edge_a e \<and> edge_a e < edge_b e \<and> edge_b e < params_n state) (edges g))"

text \<open>
  A move string holds a malformed record when, read record by record the way the loop of
  \<^verbatim>\<open>execute_move\<close> reads it, some record is reached that the loop does not take: what
  stands there is not a \<^verbatim>\<open>P<i>:<x>,<y>/<d>\<close> record with \<open>0 \<le> i < n\<close> and \<open>d > 0\<close>,
  with or without a solve marker before it. Which records are taken, and where the next
  one starts, does not depend on the state (lemma \<open>move_step_state_independent\<close>).
\<close>

inductive malformed_stream :: "int \<Rightarrow> string \<Rightarrow> bool" for n :: int where
  here: "move \<noteq> [] \<Longrightarrow> move_step n ret move = None \<Longrightarrow> malformed_stream n move"
| later: "move_step n ret move = Some (ret', move') \<Longrightarrow> malformed_stream n move' \<Longrightarrow>
    malformed_stream n move"

section \<open>A small game\<close>

text \<open>
  Four points and the two edges 0-1 and 2-3, drawn as the two diagonals of a square, so
  that they cross; the state is at address 0 and its graph at address 0 of the heap.
\<close>

definition example_state :: game_state where
  "example_state =
    \<lparr>params_n = 4, state_w = 3, state_h = 3,
     pts = [Pt 0 0 1, Pt 2 2 1, Pt 0 2 1, Pt 2 0 1], graph = 0,
     completed = False, cheated = False, just_solved = False\<rparr>"

definition example_graph :: graph where
  "example_graph = \<lparr>refcount = 1, edges = [Edge 0 1, Edge 2 3]\<rparr>"

definition example_heap :: heap where
  "example_heap = \<lparr>states = [0 \<mapsto> example_state], graphs = [0 \<mapsto> example_graph]\<rparr>"

text \<open>The same game after it has been solved once: the flag is set, the edges cross again.\<close>

definition solved_heap :: heap where
  "solved_heap =
    \<lparr>states = [0 \<mapsto> example_state\<lparr>completed := True\<rparr>], graphs = [0 \<mapsto> example_graph]\<rparr>"

lemmas c_library_defs =
  sscanf_point_def scan_int_def scan_digits_def expect_char_def isdigit_c_def isspace_c_def
  digit_val_def skip_semicolon_def

lemmas cross_defs = shares_endpoint_def cross_def collinear_apart_def cross_other_way_def

lemmas example_defs = example_heap_def solved_heap_def example_state_def example_graph_def

section \<open>Move strings as the program writes them\<close>

text \<open>
  \<^verbatim>\<open>interpret_move\<close> writes a move with \<^verbatim>\<open>sprintf(buf, "P%d:%d,%d/%d", p, x, y, d)\<close>
  (line 843), and \<^verbatim>\<open>new_game_desc\<close> writes the solution as \<^verbatim>\<open>S\<close> followed by
  \<^verbatim>\<open>";P%d:%d,%d/%d"\<close> for every point (lines 611-614). A move string of this shape is a
  list of point records joined by semicolons, each with or without a solve marker in
  front of it; the marker stands alone (\<^verbatim>\<open>SP...\<close>) or with its own semicolon
  (\<^verbatim>\<open>S;P...\<close>).
\<close>


datatype solve_mark = Unmarked | Marked | Marked_semicolon

fun mark_text :: "solve_mark \<Rightarrow> string" where
  "mark_text Unmarked = []"
| "mark_text Marked = ''S''"
| "mark_text Marked_semicolon = ''S;''"

definition point_record :: "int \<Rightarrow> point \<Rightarrow> string" where
  "point_record p pt =
    ''P'' @ sprintf_d p @ '':'' @ sprintf_d (point_x pt) @ '','' @ sprintf_d (point_y pt) @
    ''/'' @ sprintf_d (point_d pt)"

type_synonym move_item = "solve_mark \<times> int \<times> point"

fun item_text :: "move_item \<Rightarrow> string" where
  "item_text (m, p, pt) = mark_text m @ point_record p pt"

fun move_text :: "move_item list \<Rightarrow> string" where
  "move_text [] = []"
| "move_text [it] = item_text it"
| "move_text (it # its) = item_text it @ '';'' @ move_text its"

text \<open>
  What one record of such a move does to the state, and which records are valid for
  \<open>n\<close> points.
\<close>

fun apply_item :: "game_state \<Rightarrow> move_item \<Rightarrow> game_state" where
  "apply_item ret (m, p, pt) =
    (if m = Unmarked then ret else ret\<lparr>cheated := True, just_solved := True\<rparr>)
      \<lparr>pts := (pts ret)[nat p := pt]\<rparr>"

definition item_ok :: "int \<Rightarrow> move_item \<Rightarrow> bool" where
  "item_ok n it = (case it of (m, p, pt) \<Rightarrow> 0 \<le> p \<and> p < n \<and> 0 < point_d pt)"

section \<open>The generator: the greedy loop and the scrambler\<close>

text \<open>\<^verbatim>\<open>#define MAXDEGREE 4\<close>\<close>

definition MAXDEGREE :: int where
  "MAXDEGREE = 4"

text \<open>
  \<^verbatim>\<open>typedef struct vertex { int param; int vindex; } vertex;\<close> In the tree \<^verbatim>\<open>vertices\<close>
  of \<^verbatim>\<open>new_game_desc\<close> the field \<^verbatim>\<open>param\<close> is the degree of the vertex; in the array
  \<^verbatim>\<open>vlist\<close> it is the squared distance to the vertex an edge is sought for.
\<close>

record vertex =
  param :: int
  vindex :: int

definition vertcmpC :: "vertex \<Rightarrow> vertex \<Rightarrow> int" where
  "vertcmpC a b =
    (if param a < param b then - 1
     else if param a > param b then 1
     else if vindex a < vindex b then - 1
     else if vindex a > vindex b then 1
     else 0)"

text \<open>
  Modelled from the spec: the 2-3-4 trees of \<^verbatim>\<open>tree234.c\<close>, which is not among the source
  files. The spec calls the tree an ordered structure into which a record is inserted
  again whenever its key changes. A tree is the list of its elements in the order of
  its comparison function. \<^verbatim>\<open>add234\<close> leaves the tree as it is when it holds an element
  that compares equal; \<^verbatim>\<open>del234\<close> takes out the element that compares equal;
  \<^verbatim>\<open>find234\<close> returns it; \<^verbatim>\<open>index234\<close> returns the element at a position, or \<^verbatim>\<open>NULL\<close>
  past the end.
\<close>

fun add234 :: "('a \<Rightarrow> 'a \<Rightarrow> int) \<Rightarrow> 'a \<Rightarrow> 'a list \<Rightarrow> 'a list" where
  "add234 cmp e [] = [e]"
| "add234 cmp e (x # xs) =
    (if cmp e x < 0 then e # x # xs
     else if cmp e x = 0 then x # xs
     else x # add234 cmp e xs)"

fun del234 :: "('a \<Rightarrow> 'a \<Rightarrow> int) \<Rightarrow> 'a \<Rightarrow> 'a list \<Rightarrow> 'a list" where
  "del234 cmp e [] = []"
| "del234 cmp e (x # xs) = (if cmp e x = 0 then xs else x # del234 cmp e xs)"

definition find234 :: "('a \<Rightarrow> 'a \<Rightarrow> int) \<Rightarrow> 'a \<Rightarrow> 'a list \<Rightarrow> 'a option" where
  "find234 cmp e xs = find (\<lambda>x. cmp e x = 0) xs"

definition index234 :: "'a list \<Rightarrow> nat \<Rightarrow> 'a option" where
  "index234 xs i = (if i < length xs then Some (xs ! i) else None)"

text \<open>
  \<^verbatim>\<open>qsort(vlist, m, sizeof(*vlist), vertcmpC)\<close>. \<^verbatim>\<open>qsort\<close> belongs to the C library;
  it leaves the array sorted by the comparison function. It is modelled by insertion
  sort. \<^verbatim>\<open>vertcmpC\<close> is a total order that returns 0 for equal records only, so every
  sorting procedure leaves the same array.
\<close>

fun insert_sorted :: "vertex \<Rightarrow> vertex list \<Rightarrow> vertex list" where
  "insert_sorted v [] = [v]"
| "insert_sorted v (u # us) = (if vertcmpC v u \<le> 0 then v # u # us else u # insert_sorted v us)"

definition qsort_vertcmpC :: "vertex list \<Rightarrow> vertex list" where
  "qsort_vertcmpC vl = foldr insert_sorted vl []"

text \<open>
  \<^verbatim>\<open>addedge\<close> and \<^verbatim>\<open>isedge\<close>: \<open>None\<close> where \<^verbatim>\<open>assert(a != b)\<close> fails.
\<close>

definition addedge :: "edge list \<Rightarrow> int \<Rightarrow> int \<Rightarrow> edge list option" where
  "addedge es a b = (if a = b then None else Some (add234 edgecmpC (Edge (min a b) (max a b)) es))"

definition isedge :: "edge list \<Rightarrow> int \<Rightarrow> int \<Rightarrow> bool option" where
  "isedge es a b =
    (if a = b then None
     else Some (find234 edgecmpC (Edge (min a b) (max a b)) es \<noteq> None))"

text \<open>
  The loop that fills \<^verbatim>\<open>vlist\<close> for the vertex \<open>j\<close> (source lines 458-472), over the
  elements \<open>kv\<close> of the tree \<^verbatim>\<open>vertices\<close> from position \<open>i + 1\<close> on. The entries are
  written in the order of the loop.
\<close>

fun build_vlist :: "point list \<Rightarrow> edge list \<Rightarrow> int \<Rightarrow> vertex list \<Rightarrow> vertex list option" where
  "build_vlist ps es j [] = Some []"
| "build_vlist ps es j (kv # kvs) =
    (let ki = vindex kv in
     if param kv \<ge> MAXDEGREE then build_vlist ps es j kvs
     else (case isedge es ki j of
        None \<Rightarrow> None
      | Some True \<Rightarrow> build_vlist ps es j kvs
      | Some False \<Rightarrow>
          (let dx = point_x (ps ! nat ki) - point_x (ps ! nat j);
               dy = point_y (ps ! nat ki) - point_y (ps ! nat j)
           in map_option (\<lambda>vl. \<lparr>param = dx * dx + dy * dy, vindex = ki\<rparr> # vl)
                (build_vlist ps es j kvs))))"

text \<open>
  The candidate list of the vertex at position \<open>i\<close> of the tree, for \<open>i < n\<close>: \<^verbatim>\<open>vlist\<close>
  after \<^verbatim>\<open>qsort\<close> (line 474). The loop over \<open>k\<close> reads the positions from \<open>i + 1\<close> to
  \<open>n - 1\<close> of the tree; a tree with fewer than \<open>n\<close> elements makes it read through
  \<^verbatim>\<open>NULL\<close>.
\<close>

definition candidates ::
  "int \<Rightarrow> point list \<Rightarrow> edge list \<Rightarrow> vertex list \<Rightarrow> nat \<Rightarrow> vertex list option" where
  "candidates n ps es vertices i =
    (if length vertices < nat n then None
     else map_option qsort_vertcmpC
       (build_vlist ps es (vindex (vertices ! i)) (drop (i + 1) (take (nat n) vertices))))"

text \<open>
  The two tests on a candidate \<open>ki\<close> (lines 484-496): the new edge runs through a third
  point (the loop over \<open>p\<close> ends with \<^verbatim>\<open>p < n\<close>), or it crosses an edge of the tree with
  which it has no common endpoint (the loop over the edges ends with \<^verbatim>\<open>e != NULL\<close>).
  \<open>first_free\<close> is the loop over the candidates (lines 476-511): the index of the first
  candidate that passes both tests, if there is one.
\<close>

definition hits_point :: "int \<Rightarrow> point list \<Rightarrow> int \<Rightarrow> int \<Rightarrow> bool" where
  "hits_point n ps j ki =
    list_ex (\<lambda>p. p \<noteq> ki \<and> p \<noteq> j \<and> cross (ps ! nat ki) (ps ! nat j) (ps ! nat p) (ps ! nat p))
      (map int [0..<nat n])"

definition hits_edge :: "point list \<Rightarrow> edge list \<Rightarrow> int \<Rightarrow> int \<Rightarrow> bool" where
  "hits_edge ps es j ki =
    list_ex (\<lambda>e. edge_a e \<noteq> ki \<and> edge_a e \<noteq> j \<and> edge_b e \<noteq> ki \<and> edge_b e \<noteq> j \<and>
                 cross (ps ! nat ki) (ps ! nat j) (ps ! nat (edge_a e)) (ps ! nat (edge_b e))) es"

fun first_free :: "int \<Rightarrow> point list \<Rightarrow> edge list \<Rightarrow> int \<Rightarrow> vertex list \<Rightarrow> int option" where
  "first_free n ps es j [] = None"
| "first_free n ps es j (c # cs) =
    (if hits_point n ps j (vindex c) then first_free n ps es j cs
     else if hits_edge ps es j (vindex c) then first_free n ps es j cs
     else Some (vindex c))"

text \<open>
  \<^verbatim>\<open>del234(vertices, vs+u); vs[u].param++; add234(vertices, vs+u);\<close> for the element
  \<open>v\<close> of the tree that is \<^verbatim>\<open>vs[u]\<close>.
\<close>

definition bump_degree :: "vertex \<Rightarrow> vertex list \<Rightarrow> vertex list" where
  "bump_degree v vertices = add234 vertcmpC (v\<lparr>param := param v + 1\<rparr>) (del234 vertcmpC v vertices)"

text \<open>
  One round of the \<^verbatim>\<open>while (1)\<close> loop (lines 441-518): the scan over the positions
  \<open>i\<close> of the vertex tree. \<open>Nothing_added\<close> is the round that leaves \<^verbatim>\<open>added\<close> false, which
  ends the loop; \<open>Added\<close> carries the two trees as the round leaves them; \<open>Aborted\<close> is a
  failed \<^verbatim>\<open>assert\<close> or a read through \<^verbatim>\<open>NULL\<close>. The tree elements are the records of the
  array \<^verbatim>\<open>vs\<close>, so \<^verbatim>\<open>vs[ki]\<close> is the element of the tree with index \<open>ki\<close>.
\<close>

datatype round_result = Aborted | Nothing_added | Added "edge list" "vertex list"

function scan_vertices :: "int \<Rightarrow> point list \<Rightarrow> edge list \<Rightarrow> vertex list \<Rightarrow> nat \<Rightarrow> round_result" where
  "scan_vertices n ps es vertices i =
    (if \<not> int i < n then Nothing_added
     else (case index234 vertices i of
        None \<Rightarrow> Aborted
      | Some v \<Rightarrow>
          if param v \<ge> MAXDEGREE then Nothing_added
          else (case candidates n ps es vertices i of
             None \<Rightarrow> Aborted
           | Some vlist \<Rightarrow>
              (case first_free n ps es (vindex v) vlist of
                 None \<Rightarrow> scan_vertices n ps es vertices (i + 1)
               | Some ki \<Rightarrow>
                  (case addedge es (vindex v) ki of
                     None \<Rightarrow> Aborted
                   | Some es' \<Rightarrow>
                      (case find (\<lambda>u. vindex u = ki) vertices of
                         None \<Rightarrow> Aborted
                       | Some kv \<Rightarrow> Added es' (bump_degree kv (bump_degree v vertices))))))))"
  by pat_completeness auto
termination
  by (relation "measure (\<lambda>(n, ps, es, vertices, i). nat n - i)") auto

declare scan_vertices.simps [simp del]

text \<open>
  The loop ends because every round that adds an edge raises the degree of a vertex
  that was below the maximum: the sum of the degrees still missing goes down.
\<close>

definition potential :: "vertex list \<Rightarrow> nat" where
  "potential vertices = sum_list (map (\<lambda>v. nat (MAXDEGREE - param v)) vertices)"

lemma potential_del234:
  "potential (del234 vertcmpC v vertices) \<le> potential vertices"
  by (induction vertices) (auto simp: potential_def)

lemma vertcmpC_0: "vertcmpC a b = 0 \<longleftrightarrow> a = b"
  by (auto simp: vertcmpC_def)

lemma potential_del234_mem:
  "v \<in> set vertices \<Longrightarrow>
     potential (del234 vertcmpC v vertices) + nat (MAXDEGREE - param v) = potential vertices"
  by (induction vertices) (auto simp: potential_def vertcmpC_0)

lemma potential_add234:
  "potential (add234 vertcmpC v vertices) \<le> potential vertices + nat (MAXDEGREE - param v)"
  by (induction vertices) (auto simp: potential_def)

lemma potential_bump:
  assumes "v \<in> set vertices"
  shows "potential (bump_degree v vertices) + nat (MAXDEGREE - param v) \<le>
         potential vertices + nat (MAXDEGREE - (param v + 1))"
  unfolding bump_degree_def
  using potential_add234 [of "v\<lparr>param := param v + 1\<rparr>" "del234 vertcmpC v vertices"]
    potential_del234_mem [OF assms]
  by simp

lemma set_del234: "set (del234 vertcmpC v vertices) \<supseteq> set vertices - {v}"
  by (induction vertices) (auto simp: vertcmpC_0)

lemma set_add234: "set (add234 vertcmpC v vertices) = insert v (set vertices)"
  by (induction vertices) (auto simp: vertcmpC_0)

lemma mem_bump_degree: "kv \<in> set vertices \<Longrightarrow> kv \<noteq> v \<Longrightarrow> kv \<in> set (bump_degree v vertices)"
  using set_del234 [of vertices v] by (auto simp: bump_degree_def set_add234)

lemma scan_vertices_potential:
  "scan_vertices n ps es vertices i = Added es' vertices' \<Longrightarrow>
     potential vertices' < potential vertices"
proof (induction n ps es vertices i rule: scan_vertices.induct)
  case (1 n ps es vertices i)
  from "1.prems" obtain v where v: "int i < n" "index234 vertices i = Some v" "\<not> param v \<ge> MAXDEGREE"
    by (subst (asm) scan_vertices.simps) (auto split: if_splits option.splits)
  from "1.prems" v obtain vlist where vl: "candidates n ps es vertices i = Some vlist"
    by (subst (asm) scan_vertices.simps) (auto split: if_splits option.splits)
  show ?case
  proof (cases "first_free n ps es (vindex v) vlist")
    case None
    with "1.prems" v vl have "scan_vertices n ps es vertices (i + 1) = Added es' vertices'"
      by (subst (asm) scan_vertices.simps) simp
    with "1.IH" v vl None show ?thesis by simp
  next
    case (Some ki)
    with "1.prems" v vl obtain es1 kv where
      a: "addedge es (vindex v) ki = Some es1" and
      f: "find (\<lambda>u. vindex u = ki) vertices = Some kv" and
      r: "vertices' = bump_degree kv (bump_degree v vertices)"
      by (subst (asm) scan_vertices.simps) (auto split: option.splits)
    from v(2) have vm: "v \<in> set vertices"
      by (auto simp: index234_def split: if_splits)
    from f have km: "kv \<in> set vertices" "vindex kv = ki"
      by (auto simp: find_Some_iff)
    from a have "vindex v \<noteq> ki" by (auto simp: addedge_def split: if_splits)
    with km have "kv \<noteq> v" by auto
    from mem_bump_degree [OF km(1) this] have "kv \<in> set (bump_degree v vertices)" .
    from potential_bump [OF this] potential_bump [OF vm] v(3) r show ?thesis
      by simp
  qed
qed

text \<open>The \<^verbatim>\<open>while (1)\<close> loop: the two trees it ends with, or \<open>None\<close> when a round aborts.\<close>

function generate :: "int \<Rightarrow> point list \<Rightarrow> edge list \<Rightarrow> vertex list \<Rightarrow> (edge list \<times> vertex list) option" where
  "generate n ps es vertices =
    (case scan_vertices n ps es vertices 0 of
       Aborted \<Rightarrow> None
     | Nothing_added \<Rightarrow> Some (es, vertices)
     | Added es' vertices' \<Rightarrow> generate n ps es' vertices')"
  by pat_completeness auto
termination
  by (relation "measure (\<lambda>(n, ps, es, vertices). potential vertices)")
     (auto dest: scan_vertices_potential)

declare generate.simps [simp del]

text \<open>The vertex tree before the first round (lines 430-437): every degree is 0.\<close>

definition initial_vertices :: "int \<Rightarrow> vertex list" where
  "initial_vertices n = map (\<lambda>i. \<lparr>param = 0, vindex = int i\<rparr>) [0..<nat n]"

text \<open>
  For the properties: the order of \<^verbatim>\<open>vertcmpC\<close> as a relation, the squared distance of
  two points with denominator 1, adjacency and degree in an edge tree (whose edges are
  stored lower index first), what holds of the two trees in every round, and the states
  in which the rounds of the generator start.
\<close>

definition closer :: "vertex \<Rightarrow> vertex \<Rightarrow> bool" where
  "closer a b = (param a < param b \<or> (param a = param b \<and> vindex a < vindex b))"

definition sqdist :: "point \<Rightarrow> point \<Rightarrow> int" where
  "sqdist p q = (point_x p - point_x q) * (point_x p - point_x q) +
                (point_y p - point_y q) * (point_y p - point_y q)"

definition adjacent :: "edge list \<Rightarrow> int \<Rightarrow> int \<Rightarrow> bool" where
  "adjacent es u v = (Edge (min u v) (max u v) \<in> set es)"

definition degree :: "edge list \<Rightarrow> int \<Rightarrow> int" where
  "degree es u = int (length (filter (\<lambda>e. edge_a e = u \<or> edge_b e = u) es))"

definition generator_inv :: "int \<Rightarrow> edge list \<Rightarrow> vertex list \<Rightarrow> bool" where
  "generator_inv n es vertices =
    (sorted_wrt closer vertices \<and> distinct (map vindex vertices) \<and>
     vindex ` set vertices = {0..<n} \<and>
     (\<forall>v \<in> set vertices. param v = degree es (vindex v)))"

inductive round_state :: "int \<Rightarrow> point list \<Rightarrow> edge list \<Rightarrow> vertex list \<Rightarrow> bool"
  for n :: int and ps :: "point list" where
  first_round: "round_state n ps [] (initial_vertices n)"
| next_round: "round_state n ps es vertices \<Longrightarrow>
     scan_vertices n ps es vertices 0 = Added es' vertices' \<Longrightarrow> round_state n ps es' vertices'"

text \<open>
  The loop that looks for a permutation with a crossing (source lines 531-547).
  \<^verbatim>\<open>shuffle\<close> is not in this file; it is the parameter \<open>shuffle\<close>, which takes the state
  \<open>rs\<close> of the random number generator and the array \<^verbatim>\<open>tmp\<close> and returns both as the
  call leaves them. \<open>pts2\<close> is the array that \<^verbatim>\<open>make_circle\<close> has filled (with
  floating-point arithmetic, which is not modelled). The loop has no bound: where it
  does not end, the result is \<open>None\<close>.
\<close>

partial_function (option) scramble ::
  "('rs \<Rightarrow> int list \<Rightarrow> int list \<times> 'rs) \<Rightarrow> point list \<Rightarrow> edge list \<Rightarrow> int list \<Rightarrow> 'rs \<Rightarrow>
    (int list \<times> 'rs) option" where
  "scramble shuffle pts2 es tmp rs =
    (case shuffle rs tmp of
       (tmp', rs') \<Rightarrow>
         if find_crossing (\<lambda>v. pts2 ! nat (tmp' ! nat v)) es then Some (tmp', rs')
         else scramble shuffle pts2 es tmp' rs')"



text \<open>Four points of the grid for the examples of the greedy loop.\<close>

definition example_points :: "point list" where
  "example_points = [Pt 0 0 1, Pt 2 2 1, Pt 0 2 1, Pt 2 0 1]"

lemmas generator_defs =
  candidates_def MAXDEGREE_def isedge_def find234_def edgecmpC_def qsort_vertcmpC_def vertcmpC_def
  index234_def hits_point_def hits_edge_def addedge_def bump_degree_def initial_vertices_def

section \<open>Where the crossing predicate is symmetric\<close>

text \<open>
  Swapping the endpoints of the second segment never changes the result, and swapping
  the endpoints of the first segment does not change it when the four points have one
  denominator. Swapping the two segments does not change it when the four points have
  one denominator and neither segment is a single point. (Claim C2 gives points where
  swapping the segments, one of them a single point, and swapping the endpoints of the
  first segment under different denominators, change it.)
\<close>

lemma same_side_neg:
  fixes x y x' y' p q :: int
  assumes p: "0 < p" and q: "0 < q" and x: "x' * p = - (x * q)" and y: "y' * p = - (y * q)"
  shows "((x' > 0 \<and> y' > 0) \<or> (x' < 0 \<and> y' < 0)) = ((x > 0 \<and> y > 0) \<or> (x < 0 \<and> y < 0))"
proof -
  have s: "(a' > 0) = (a < 0) \<and> (a' < 0) = (a > 0)" if "a' * p = - (a * q)" for a a' :: int
  proof -
    have "(a' > 0) = (a' * p > 0)" using p by (simp add: zero_less_mult_iff)
    also have "\<dots> = (a * q < 0)" using that by simp
    also have "\<dots> = (a < 0)" using q by (simp add: mult_less_0_iff)
    finally have 1: "(a' > 0) = (a < 0)" .
    have "(a' < 0) = (a' * p < 0)" using p by (simp add: mult_less_0_iff)
    also have "\<dots> = (a * q > 0)" using that by simp
    also have "\<dots> = (a > 0)" using q by (simp add: zero_less_mult_iff)
    finally have 2: "(a' < 0) = (a > 0)" .
    from 1 2 show ?thesis by simp
  qed
  from s [OF x] s [OF y] show ?thesis by auto
qed

lemma cross_other_way_swap:
  assumes "0 < point_d b1" "0 < point_d b2"
  shows "cross_other_way a1 a2 b2 b1 = cross_other_way a1 a2 b1 b2"
proof -
  let ?x = "(point_x a1 * point_d b1 - point_x b1 * point_d a1) * (point_y b1 * point_d b2 - point_y b2 * point_d b1) +
            (point_y a1 * point_d b1 - point_y b1 * point_d a1) * (point_x b2 * point_d b1 - point_x b1 * point_d b2)"
  let ?y = "(point_x a2 * point_d b1 - point_x b1 * point_d a2) * (point_y b1 * point_d b2 - point_y b2 * point_d b1) +
            (point_y a2 * point_d b1 - point_y b1 * point_d a2) * (point_x b2 * point_d b1 - point_x b1 * point_d b2)"
  let ?x' = "(point_x a1 * point_d b2 - point_x b2 * point_d a1) * (point_y b2 * point_d b1 - point_y b1 * point_d b2) +
            (point_y a1 * point_d b2 - point_y b2 * point_d a1) * (point_x b1 * point_d b2 - point_x b2 * point_d b1)"
  let ?y' = "(point_x a2 * point_d b2 - point_x b2 * point_d a2) * (point_y b2 * point_d b1 - point_y b1 * point_d b2) +
            (point_y a2 * point_d b2 - point_y b2 * point_d a2) * (point_x b1 * point_d b2 - point_x b2 * point_d b1)"
  have x: "?x' * point_d b1 = - (?x * point_d b2)" by (simp add: algebra_simps)
  have y: "?y' * point_d b1 = - (?y * point_d b2)" by (simp add: algebra_simps)
  from same_side_neg [OF assms x y] show ?thesis
    by (simp add: cross_other_way_def Let_def)
qed

lemma cross_swap_second_endpoints:
  assumes "0 < point_d b1" "0 < point_d b2"
  shows "cross a1 a2 b2 b1 = cross a1 a2 b1 b2"
  unfolding cross_def Let_def cross_other_way_swap [OF assms] collinear_apart_def
  by auto

lemma cross_swap_first_endpoints:
  assumes d: "point_d a1 = d" "point_d a2 = d" "point_d b1 = d" "point_d b2 = d"
  shows "cross a2 a1 b1 b2 = cross a1 a2 b1 b2"
proof -
  define o1 where "o1 = (point_x b1 * d - point_x a1 * d) * (point_y a1 * d - point_y a2 * d) +
                        (point_y b1 * d - point_y a1 * d) * (point_x a2 * d - point_x a1 * d)"
  define o2 where "o2 = (point_x b2 * d - point_x a1 * d) * (point_y a1 * d - point_y a2 * d) +
                        (point_y b2 * d - point_y a1 * d) * (point_x a2 * d - point_x a1 * d)"
  define o1' where "o1' = (point_x b1 * d - point_x a2 * d) * (point_y a2 * d - point_y a1 * d) +
                        (point_y b1 * d - point_y a2 * d) * (point_x a1 * d - point_x a2 * d)"
  define o2' where "o2' = (point_x b2 * d - point_x a2 * d) * (point_y a2 * d - point_y a1 * d) +
                        (point_y b2 * d - point_y a2 * d) * (point_x a1 * d - point_x a2 * d)"
  define t1 where "t1 = (point_x b1 * d - point_x a1 * d) * (point_x a2 * d - point_x a1 * d) +
                        (point_y b1 * d - point_y a1 * d) * (point_y a2 * d - point_y a1 * d)"
  define t2 where "t2 = (point_x b2 * d - point_x a1 * d) * (point_x a2 * d - point_x a1 * d) +
                        (point_y b2 * d - point_y a1 * d) * (point_y a2 * d - point_y a1 * d)"
  define t1' where "t1' = (point_x b1 * d - point_x a2 * d) * (point_x a1 * d - point_x a2 * d) +
                        (point_y b1 * d - point_y a2 * d) * (point_y a1 * d - point_y a2 * d)"
  define t2' where "t2' = (point_x b2 * d - point_x a2 * d) * (point_x a1 * d - point_x a2 * d) +
                        (point_y b2 * d - point_y a2 * d) * (point_y a1 * d - point_y a2 * d)"
  define l where "l = (point_x a2 * d - point_x a1 * d) * (point_x a2 * d - point_x a1 * d) +
                      (point_y a2 * d - point_y a1 * d) * (point_y a2 * d - point_y a1 * d)"
  define l' where "l' = (point_x a1 * d - point_x a2 * d) * (point_x a1 * d - point_x a2 * d) +
                      (point_y a1 * d - point_y a2 * d) * (point_y a1 * d - point_y a2 * d)"
  have o: "o1' = - o1" "o2' = - o2"
    by (simp_all add: o1_def o2_def o1'_def o2'_def algebra_simps)
  have t: "t1' = l - t1" "t2' = l - t2" "l' = l"
    by (simp_all add: t1_def t2_def t1'_def t2'_def l_def l'_def algebra_simps)
  have w: "cross_other_way a2 a1 b1 b2 = cross_other_way a1 a2 b1 b2"
    by (auto simp: cross_other_way_def Let_def d)
  have c: "collinear_apart a1 a2 (point_x b1 * d - point_x a1 * d) (point_y b1 * d - point_y a1 * d)
             (point_x b2 * d - point_x a1 * d) (point_y b2 * d - point_y a1 * d) =
           ((t1 < 0 \<and> t2 < 0) \<or> (t1 > l \<and> t2 > l))"
    by (simp add: collinear_apart_def Let_def d t1_def t2_def l_def)
  have c': "collinear_apart a2 a1 (point_x b1 * d - point_x a2 * d) (point_y b1 * d - point_y a2 * d)
             (point_x b2 * d - point_x a2 * d) (point_y b2 * d - point_y a2 * d) =
           ((t1' < 0 \<and> t2' < 0) \<or> (t1' > l' \<and> t2' > l'))"
    by (simp add: collinear_apart_def Let_def d t1'_def t2'_def l'_def)
  have 1: "cross a1 a2 b1 b2 =
      (if (o1 > 0 \<and> o2 > 0) \<or> (o1 < 0 \<and> o2 < 0) then False
       else if o1 = 0 \<and> o2 = 0 \<and> ((t1 < 0 \<and> t2 < 0) \<or> (t1 > l \<and> t2 > l)) then False
       else cross_other_way a1 a2 b1 b2)"
    unfolding cross_def Let_def d c o1_def o2_def by (rule refl)
  have 2: "cross a2 a1 b1 b2 =
      (if (o1' > 0 \<and> o2' > 0) \<or> (o1' < 0 \<and> o2' < 0) then False
       else if o1' = 0 \<and> o2' = 0 \<and> ((t1' < 0 \<and> t2' < 0) \<or> (t1' > l' \<and> t2' > l')) then False
       else cross_other_way a2 a1 b1 b2)"
    unfolding cross_def Let_def d c' o1'_def o2'_def by (rule refl)
  show ?thesis
    unfolding 1 2 o t w by auto
qed

text \<open>
  The overlap test along one segment, read from the other segment: \<open>p1\<close>, \<open>p2\<close> are the
  projections of the endpoints on a segment of squared length \<open>m\<close>.
\<close>

lemma apart_seen_from_other:
  fixes p1 p2 m :: int
  assumes m: "0 < m" and ne: "p1 \<noteq> p2"
    and ap: "(p1 < 0 \<and> p2 < 0) \<or> (p1 > m \<and> p2 > m)"
  shows "(p1 * (p1 - p2) < 0 \<and> (p2 - p1) * (m - p1) < 0) \<or>
         (p1 * (p1 - p2) > (p2 - p1) * (p2 - p1) \<and> (p2 - p1) * (m - p1) > (p2 - p1) * (p2 - p1))"
proof -
  have e1: "p1 * (p1 - p2) - (p2 - p1) * (p2 - p1) = (p1 - p2) * p2"
    by (simp add: algebra_simps)
  have e2: "(p2 - p1) * (m - p1) - (p2 - p1) * (p2 - p1) = (p2 - p1) * (m - p2)"
    by (simp add: algebra_simps)
  from ne consider (lt) "p1 < p2" | (gt) "p2 < p1" by linarith
  then show ?thesis
  proof cases
    case lt
    from ap show ?thesis
    proof
      assume a: "p1 < 0 \<and> p2 < 0"
      with lt have "(p1 - p2) * p2 > 0" "(p2 - p1) * (m - p2) > 0"
        using m by (auto intro: mult_neg_neg mult_pos_pos)
      with e1 e2 show ?thesis by linarith
    next
      assume a: "p1 > m \<and> p2 > m"
      with lt m have "p1 * (p1 - p2) < 0" "(p2 - p1) * (m - p1) < 0"
        by (auto intro: mult_pos_neg)
      then show ?thesis by simp
    qed
  next
    case gt
    from ap show ?thesis
    proof
      assume a: "p1 < 0 \<and> p2 < 0"
      with gt m have "p1 * (p1 - p2) < 0" "(p2 - p1) * (m - p1) < 0"
        by (auto intro: mult_neg_pos)
      then show ?thesis by simp
    next
      assume a: "p1 > m \<and> p2 > m"
      with gt m have "(p1 - p2) * p2 > 0" "(p2 - p1) * (m - p2) > 0"
        by (auto intro: mult_neg_neg mult_pos_pos)
      with e1 e2 show ?thesis by linarith
    qed
  qed
qed

text \<open>
  Vectors in the plane: \<open>w = a2 - a1\<close>, \<open>u1 = b1 - a1\<close>, \<open>u2 = b2 - a1\<close>. If \<open>b1\<close> and
  \<open>b2\<close> lie on the line of the proper segment from \<open>a1\<close> to \<open>a2\<close> and are apart from it,
  then \<open>a1\<close> and \<open>a2\<close> lie on the line through \<open>b1\<close> and \<open>b2\<close> and are apart from that
  segment.
\<close>

lemma collinear_apart_other:
  fixes wx wy u1x u1y u2x u2y :: int
  assumes w: "wx \<noteq> 0 \<or> wy \<noteq> 0"
    and z: "u2x - u1x \<noteq> 0 \<or> u2y - u1y \<noteq> 0"
    and o1: "u1x * (- wy) + u1y * wx = 0"
    and o2: "u2x * (- wy) + u2y * wx = 0"
    and ap: "(u1x * wx + u1y * wy < 0 \<and> u2x * wx + u2y * wy < 0) \<or>
             (u1x * wx + u1y * wy > wx * wx + wy * wy \<and> u2x * wx + u2y * wy > wx * wx + wy * wy)"
  shows "(- u1x) * (- (u2y - u1y)) + (- u1y) * (u2x - u1x) = 0 \<and>
         (wx - u1x) * (- (u2y - u1y)) + (wy - u1y) * (u2x - u1x) = 0 \<and>
         (((- u1x) * (u2x - u1x) + (- u1y) * (u2y - u1y) < 0 \<and>
           (wx - u1x) * (u2x - u1x) + (wy - u1y) * (u2y - u1y) < 0) \<or>
          ((- u1x) * (u2x - u1x) + (- u1y) * (u2y - u1y) >
              (u2x - u1x) * (u2x - u1x) + (u2y - u1y) * (u2y - u1y) \<and>
           (wx - u1x) * (u2x - u1x) + (wy - u1y) * (u2y - u1y) >
              (u2x - u1x) * (u2x - u1x) + (u2y - u1y) * (u2y - u1y)))"
proof -
  define k where "k = u1x * u2y - u1y * u2x"
  define t1 where "t1 = u1x * wx + u1y * wy"
  define t2 where "t2 = u2x * wx + u2y * wy"
  define l where "l = wx * wx + wy * wy"
  define s1 where "s1 = (- u1x) * (u2x - u1x) + (- u1y) * (u2y - u1y)"
  define s2 where "s2 = (wx - u1x) * (u2x - u1x) + (wy - u1y) * (u2y - u1y)"
  define l' where "l' = (u2x - u1x) * (u2x - u1x) + (u2y - u1y) * (u2y - u1y)"
  have kx: "k * wx = (u2x * (- wy) + u2y * wx) * u1x - (u1x * (- wy) + u1y * wx) * u2x"
    by (simp add: k_def algebra_simps)
  have ky: "k * wy = (u2x * (- wy) + u2y * wx) * u1y - (u1x * (- wy) + u1y * wx) * u2y"
    by (simp add: k_def algebra_simps)
  from kx ky o1 o2 have "k * wx = 0" "k * wy = 0" by simp_all
  with w have k0: "k = 0" by auto
  have l_pos: "0 < l"
  proof -
    have "0 \<le> wx * wx" "0 \<le> wy * wy" by simp_all
    moreover from w have "0 < wx * wx \<or> 0 < wy * wy"
      by (auto simp: zero_less_mult_iff neq_iff)
    ultimately show ?thesis unfolding l_def by linarith
  qed
  have l'_pos: "0 < l'"
  proof -
    have "0 \<le> (u2x - u1x) * (u2x - u1x)" "0 \<le> (u2y - u1y) * (u2y - u1y)" by simp_all
    moreover from z have "0 < (u2x - u1x) * (u2x - u1x) \<or> 0 < (u2y - u1y) * (u2y - u1y)"
      by (auto simp: zero_less_mult_iff neq_iff)
    ultimately show ?thesis unfolding l'_def by linarith
  qed
  have i1: "l * s1 = t1 * (t1 - t2) +
      (u1x * (- wy) + u1y * wx) * ((u1x * (- wy) + u1y * wx) - (u2x * (- wy) + u2y * wx))"
    by (simp add: l_def s1_def t1_def t2_def algebra_simps)
  have i2: "l * s2 = (t2 - t1) * (l - t1) +
      (u1x * (- wy) + u1y * wx) * ((u1x * (- wy) + u1y * wx) - (u2x * (- wy) + u2y * wx))"
    by (simp add: l_def s2_def t1_def t2_def algebra_simps)
  have i3: "l * l' = (t2 - t1) * (t2 - t1) +
      ((u2x * (- wy) + u2y * wx) - (u1x * (- wy) + u1y * wx)) *
      ((u2x * (- wy) + u2y * wx) - (u1x * (- wy) + u1y * wx))"
    by (simp add: l_def l'_def t1_def t2_def algebra_simps)
  from i1 i2 i3 o1 o2 have j: "l * s1 = t1 * (t1 - t2)" "l * s2 = (t2 - t1) * (l - t1)"
    "l * l' = (t2 - t1) * (t2 - t1)" by simp_all
  from j(3) l_pos l'_pos have ne: "t1 \<noteq> t2"
    by (auto simp: zero_less_mult_iff)
  from ap have ap': "(t1 < 0 \<and> t2 < 0) \<or> (t1 > l \<and> t2 > l)"
    by (simp add: t1_def t2_def l_def)
  from apart_seen_from_other [OF l_pos ne ap']
  have "(l * s1 < 0 \<and> l * s2 < 0) \<or> (l * s1 > l * l' \<and> l * s2 > l * l')"
    unfolding j .
  with l_pos have r: "(s1 < 0 \<and> s2 < 0) \<or> (s1 > l' \<and> s2 > l')"
    by (simp add: mult_less_0_iff)
  have c1: "(- u1x) * (- (u2y - u1y)) + (- u1y) * (u2x - u1x) = k"
    by (simp add: k_def algebra_simps)
  have c2: "(wx - u1x) * (- (u2y - u1y)) + (wy - u1y) * (u2x - u1x) =
      k + (u1x * (- wy) + u1y * wx) - (u2x * (- wy) + u2y * wx)"
    by (simp add: k_def algebra_simps)
  from c1 c2 k0 o1 o2 r show ?thesis
    unfolding s1_def s2_def l'_def by simp
qed


lemma cross_swap_proper_segments_imp:
  assumes d: "point_d a1 = d" "point_d a2 = d" "point_d b1 = d" "point_d b2 = d"
    and d0: "d \<noteq> 0"
    and a: "point_x a1 \<noteq> point_x a2 \<or> point_y a1 \<noteq> point_y a2"
    and b: "point_x b1 \<noteq> point_x b2 \<or> point_y b1 \<noteq> point_y b2"
    and c: "cross b1 b2 a1 a2"
  shows "cross a1 a2 b1 b2"
proof -
  define wx where "wx = point_x a2 * d - point_x a1 * d"
  define wy where "wy = point_y a2 * d - point_y a1 * d"
  define u1x where "u1x = point_x b1 * d - point_x a1 * d"
  define u1y where "u1y = point_y b1 * d - point_y a1 * d"
  define u2x where "u2x = point_x b2 * d - point_x a1 * d"
  define u2y where "u2y = point_y b2 * d - point_y a1 * d"
  define o1 where "o1 = u1x * (- wy) + u1y * wx"
  define o2 where "o2 = u2x * (- wy) + u2y * wx"
  define o3 where "o3 = (- u1x) * (- (u2y - u1y)) + (- u1y) * (u2x - u1x)"
  define o4 where "o4 = (wx - u1x) * (- (u2y - u1y)) + (wy - u1y) * (u2x - u1x)"
  define apart_a where "apart_a \<longleftrightarrow>
    (u1x * wx + u1y * wy < 0 \<and> u2x * wx + u2y * wy < 0) \<or>
    (u1x * wx + u1y * wy > wx * wx + wy * wy \<and> u2x * wx + u2y * wy > wx * wx + wy * wy)"
  define apart_b where "apart_b \<longleftrightarrow>
    ((- u1x) * (u2x - u1x) + (- u1y) * (u2y - u1y) < 0 \<and>
     (wx - u1x) * (u2x - u1x) + (wy - u1y) * (u2y - u1y) < 0) \<or>
    ((- u1x) * (u2x - u1x) + (- u1y) * (u2y - u1y) >
        (u2x - u1x) * (u2x - u1x) + (u2y - u1y) * (u2y - u1y) \<and>
     (wx - u1x) * (u2x - u1x) + (wy - u1y) * (u2y - u1y) >
        (u2x - u1x) * (u2x - u1x) + (u2y - u1y) * (u2y - u1y))"
  have e1: "point_x a1 * d - point_x b1 * d = - u1x" "point_y a1 * d - point_y b1 * d = - u1y"
    "point_x a2 * d - point_x b1 * d = wx - u1x" "point_y a2 * d - point_y b1 * d = wy - u1y"
    "point_y b1 * d - point_y b2 * d = - (u2y - u1y)" "point_x b2 * d - point_x b1 * d = u2x - u1x"
    "point_y b2 * d - point_y b1 * d = u2y - u1y"
    "point_y a1 * d - point_y a2 * d = - wy"
    by (simp_all add: wx_def wy_def u1x_def u1y_def u2x_def u2y_def)
  have e2: "point_x a2 * d - point_x a1 * d = wx" "point_y a2 * d - point_y a1 * d = wy"
    "point_x b1 * d - point_x a1 * d = u1x" "point_y b1 * d - point_y a1 * d = u1y"
    "point_x b2 * d - point_x a1 * d = u2x" "point_y b2 * d - point_y a1 * d = u2y"
    by (simp_all add: wx_def wy_def u1x_def u1y_def u2x_def u2y_def)
  have ab: "cross a1 a2 b1 b2 \<longleftrightarrow>
      \<not> ((o1 > 0 \<and> o2 > 0) \<or> (o1 < 0 \<and> o2 < 0)) \<and> \<not> (o1 = 0 \<and> o2 = 0 \<and> apart_a) \<and>
      \<not> ((o3 > 0 \<and> o4 > 0) \<or> (o3 < 0 \<and> o4 < 0))"
    unfolding cross_def collinear_apart_def cross_other_way_def Let_def d e1 e2
      o1_def o2_def o3_def o4_def apart_a_def
    by auto
  have ba: "cross b1 b2 a1 a2 \<longleftrightarrow>
      \<not> ((o3 > 0 \<and> o4 > 0) \<or> (o3 < 0 \<and> o4 < 0)) \<and> \<not> (o3 = 0 \<and> o4 = 0 \<and> apart_b) \<and>
      \<not> ((o1 > 0 \<and> o2 > 0) \<or> (o1 < 0 \<and> o2 < 0))"
    unfolding cross_def collinear_apart_def cross_other_way_def Let_def d e1 e2
      o1_def o2_def o3_def o4_def apart_b_def
    by auto
  from a d0 have w: "wx \<noteq> 0 \<or> wy \<noteq> 0"
    by (auto simp: wx_def wy_def algebra_simps)
  from b d0 have z: "u2x - u1x \<noteq> 0 \<or> u2y - u1y \<noteq> 0"
    by (auto simp: u1x_def u1y_def u2x_def u2y_def algebra_simps)
  have "o3 = 0 \<and> o4 = 0 \<and> apart_b" if "o1 = 0" "o2 = 0" apart_a
    using collinear_apart_other [OF w z that(1) [unfolded o1_def] that(2) [unfolded o2_def]
        that(3) [unfolded apart_a_def]]
    unfolding o3_def o4_def apart_b_def .
  with c show ?thesis
    unfolding ab ba by blast
qed

lemma cross_swap_proper_segments:
  assumes d: "point_d a1 = d" "point_d a2 = d" "point_d b1 = d" "point_d b2 = d"
    and d0: "d \<noteq> 0"
    and a: "point_x a1 \<noteq> point_x a2 \<or> point_y a1 \<noteq> point_y a2"
    and b: "point_x b1 \<noteq> point_x b2 \<or> point_y b1 \<noteq> point_y b2"
  shows "cross b1 b2 a1 a2 = cross a1 a2 b1 b2"
  using cross_swap_proper_segments_imp [OF d d0 a b]
    cross_swap_proper_segments_imp [OF d(3,4,1,2) d0 b a]
  by blast

section \<open>Lemmas on the completion check and the move loop\<close>

subsection \<open>Crossing scan\<close>



subsection \<open>Fields the move loop keeps\<close>

lemma move_step_fields:
  assumes "move_step n ret move = Some (ret', move')"
  shows "graph ret' = graph ret \<and> completed ret' = completed ret \<and>
         params_n ret' = params_n ret \<and> length (pts ret') = length (pts ret)"
  using assms
  by (auto simp: move_step_def split: list.splits if_splits option.splits prod.splits)

lemma move_loop_fields:
  "move_loop n ret move = Some ret' \<Longrightarrow>
     graph ret' = graph ret \<and> completed ret' = completed ret \<and>
     params_n ret' = params_n ret \<and> length (pts ret') = length (pts ret)"
proof (induction n ret move rule: move_loop.induct)
  case (1 n ret)
  then show ?case by simp
next
  case (2 n ret c cs)
  from "2.prems" obtain ret1 move1 where
    s: "move_step n ret (c # cs) = Some (ret1, move1)" and l: "move_loop n ret1 move1 = Some ret'"
    by (auto split: option.splits)
  from "2.IH" [OF s refl l] move_step_fields [OF s] show ?case by simp
qed


subsection \<open>What a call of execute-move leaves on the heap\<close>


lemma execute_move_accepted:
  assumes ex: "execute_move hp new sp move = Some (hp', Some r)"
    and st: "states hp sp = Some state"
  obtains ret1 g where
    "graphs hp (graph state) = Some g"
    "move_loop (params_n state)
       (state\<lparr>pts := take (nat (params_n state)) (pts state), just_solved := False\<rparr>) move = Some ret1"
    "r = new"
    "states hp' new =
       Some (ret1\<lparr>completed := completed state \<or> \<not> find_crossing (\<lambda>v. pts ret1 ! nat v) (edges g)\<rparr>)"
proof -
  from ex st obtain hp1 where d: "dup_game hp new sp = Some hp1"
    by (auto simp: execute_move_def split: option.splits)
  with st obtain g where g: "graphs hp (graph state) = Some g"
    and hp1: "hp1 = hp\<lparr>states := (states hp)
                 (new \<mapsto> state\<lparr>pts := take (nat (params_n state)) (pts state)\<rparr>),
               graphs := (graphs hp)(graph state \<mapsto> g\<lparr>refcount := refcount g + 1\<rparr>)\<rparr>"
    by (auto simp: dup_game_def split: option.splits if_splits)
  let ?ret = "state\<lparr>pts := take (nat (params_n state)) (pts state), just_solved := False\<rparr>"
  from ex st d hp1 obtain ret1 where l: "move_loop (params_n state) ?ret move = Some ret1"
    by (auto simp: execute_move_def split: option.splits)
  from move_loop_fields [OF l] have f: "graph ret1 = graph state" "completed ret1 = completed state"
    by simp_all
  have "r = new \<and> states hp' new =
       Some (ret1\<lparr>completed := completed state \<or> \<not> find_crossing (\<lambda>v. pts ret1 ! nat v) (edges g)\<rparr>)"
  proof (cases "completed state")
    case True
    with ex st d hp1 l f show ?thesis
      by (auto simp: execute_move_def)
  next
    case False
    with ex st d hp1 l f show ?thesis
      by (auto simp: execute_move_def)
  qed
  with g l that show ?thesis by blast
qed


lemma move_step_state_independent:
  "move_step n ret move = None \<Longrightarrow> move_step n ret' move = None"
  "move_step n ret move = Some (r, move') \<Longrightarrow> \<exists>r'. move_step n ret' move = Some (r', move')"
  by (auto simp: move_step_def split: list.splits if_splits option.splits prod.splits)

lemma malformed_stream_rejected:
  "malformed_stream n move \<Longrightarrow> move_loop n ret move = None"
proof (induction arbitrary: ret rule: malformed_stream.induct)
  case (here move ret0)
  then obtain c cs where "move = c # cs" by (cases move) auto
  with here move_step_state_independent(1) [of n ret0 move ret] show ?case by simp
next
  case (later ret0 move ret' move')
  from move_step_shorter [OF later(1)] obtain c cs where m: "move = c # cs" by (cases move) auto
  from move_step_state_independent(2) [OF later(1), of ret] obtain r' where
    "move_step n ret move = Some (r', move')" by blast
  with later.IH [of r'] m show ?case by simp
qed


subsection \<open>Rejection is the malformed record, acceptance keeps the game well-formed\<close>

lemma move_loop_rejects_iff: "move_loop n ret move = None \<longleftrightarrow> malformed_stream n move"
proof
  show "move_loop n ret move = None \<Longrightarrow> malformed_stream n move"
  proof (induction n ret move rule: move_loop.induct)
    case (1 n ret)
    then show ?case by simp
  next
    case (2 n ret c cs)
    show ?case
    proof (cases "move_step n ret (c # cs)")
      case None
      then show ?thesis by (intro malformed_stream.here) simp_all
    next
      case (Some r)
      obtain ret' move' where r: "r = (ret', move')" by (cases r)
      with Some "2.prems" have "move_loop n ret' move' = None" by simp
      with "2.IH" Some r have "malformed_stream n move'" by simp
      with Some r show ?thesis by (intro malformed_stream.later [of n ret "c # cs" ret' move']) simp_all
    qed
  qed
  show "malformed_stream n move \<Longrightarrow> move_loop n ret move = None"
    by (rule malformed_stream_rejected)
qed

lemma execute_move_keeps_game_ok:
  assumes ex: "execute_move hp new sp move = Some (hp', Some r)"
    and st: "states hp sp = Some state"
    and g: "graphs hp (graph state) = Some g"
    and ok: "game_ok state g"
    and fresh: "states hp new = None"
  shows "\<exists>state'. states hp' r = Some state' \<and> states hp' sp = Some state \<and>
           graphs hp' (graph state') = Some (g\<lparr>refcount := refcount g + 1\<rparr>) \<and>
           game_ok state' (g\<lparr>refcount := refcount g + 1\<rparr>)"
proof -
  from ok have len: "length (pts state) = nat (params_n state)" by (simp add: game_ok_def)
  then have tk: "state\<lparr>pts := take (nat (params_n state)) (pts state)\<rparr> = state" by simp
  from fresh st have ne: "new \<noteq> sp" by auto
  from ex st obtain hp1 where d: "dup_game hp new sp = Some hp1"
    by (auto simp: execute_move_def split: option.splits)
  with st g tk have hp1: "hp1 = hp\<lparr>states := (states hp)(new \<mapsto> state),
               graphs := (graphs hp)(graph state \<mapsto> g\<lparr>refcount := refcount g + 1\<rparr>)\<rparr>"
    by (auto simp: dup_game_def split: option.splits if_splits)
  from ex st d hp1 obtain ret1 where l: "move_loop (params_n state) (state\<lparr>just_solved := False\<rparr>) move = Some ret1"
    by (auto simp: execute_move_def split: option.splits)
  from move_loop_fields [OF l] have f: "graph ret1 = graph state" "completed ret1 = completed state"
    "params_n ret1 = params_n state" "length (pts ret1) = length (pts state)"
    by simp_all
  let ?state' = "if completed state then ret1
      else ret1\<lparr>completed := \<not> find_crossing (\<lambda>v. pts ret1 ! nat v) (edges g)\<rparr>"
  have res: "r = new \<and> hp' = hp1\<lparr>states := (states hp1)(new \<mapsto> ?state')\<rparr>"
    using ex st d hp1 l f by (auto simp: execute_move_def)
  have "game_ok ?state' (g\<lparr>refcount := refcount g + 1\<rparr>)" "graph ?state' = graph state"
    using ok f by (simp_all add: game_ok_def)
  with res hp1 st ne show ?thesis by simp
qed

subsection \<open>Solve markers and the characters of a record\<close>


lemma scan_digits_consumed:
  assumes "scan_digits s = Some (v, r)"
  shows "\<exists>pre. s = pre @ r \<and> (\<forall>c \<in> set pre. isdigit_c c)"
proof -
  from assms have r: "r = dropWhile isdigit_c s"
    by (auto simp: scan_digits_def Let_def split: if_splits)
  have "s = takeWhile isdigit_c s @ r" by (simp add: r)
  moreover have "\<forall>c \<in> set (takeWhile isdigit_c s). isdigit_c c"
    by (auto dest: set_takeWhileD)
  ultimately show ?thesis by blast
qed

lemma S_not_number_char:
  "\<not> isdigit_c CHR ''S''" "\<not> isspace_c CHR ''S''"
  by (simp_all add: isdigit_c_def isspace_c_def)

lemma scan_int_consumed:
  assumes "scan_int s = Some (v, r)"
  shows "\<exists>pre. s = pre @ r \<and> CHR ''S'' \<notin> set pre"
proof -
  let ?t = "dropWhile isspace_c s"
  have s: "s = takeWhile isspace_c s @ ?t" by simp
  have sp: "CHR ''S'' \<notin> set (takeWhile isspace_c s)"
    using S_not_number_char(2) by (auto dest: set_takeWhileD)
  from assms obtain c cs where t: "?t = c # cs" by (auto simp: scan_int_def split: list.splits)
  from assms t consider
      (neg) v' where "c = CHR ''-''" "scan_digits cs = Some (v', r)"
    | (pos) "c = CHR ''+''" "scan_digits cs = Some (v, r)"
    | (plain) "scan_digits (c # cs) = Some (v, r)"
    by (auto simp: scan_int_def split: if_splits)
  then obtain pre where "?t = pre @ r" "CHR ''S'' \<notin> set pre"
  proof cases
    case neg
    from scan_digits_consumed [OF neg(2)] obtain pre where "cs = pre @ r" "\<forall>c \<in> set pre. isdigit_c c"
      by blast
    with neg(1) t S_not_number_char(1) have "?t = (c # pre) @ r" "CHR ''S'' \<notin> set (c # pre)"
      by auto
    with that show ?thesis by blast
  next
    case pos
    from scan_digits_consumed [OF pos(2)] obtain pre where "cs = pre @ r" "\<forall>c \<in> set pre. isdigit_c c"
      by blast
    with pos(1) t S_not_number_char(1) have "?t = (c # pre) @ r" "CHR ''S'' \<notin> set (c # pre)"
      by auto
    with that show ?thesis by blast
  next
    case plain
    from scan_digits_consumed [OF plain] obtain pre where "c # cs = pre @ r" "\<forall>c \<in> set pre. isdigit_c c"
      by blast
    with t S_not_number_char(1) have "?t = pre @ r" "CHR ''S'' \<notin> set pre"
      by auto
    with that show ?thesis by blast
  qed
  with s sp have "s = (takeWhile isspace_c s @ pre) @ r" "CHR ''S'' \<notin> set (takeWhile isspace_c s @ pre)"
    by (metis append.assoc, simp)
  then show ?thesis by blast
qed

lemma expect_char_consumed: "expect_char c s = Some r \<Longrightarrow> s = c # r"
  by (auto simp: expect_char_def split: list.splits if_splits)

lemma sscanf_point_consumed:
  assumes "sscanf_point s = Some (p, x, y, d, k)"
  shows "\<exists>pre. s = pre @ drop k s \<and> length pre = k \<and> CHR ''S'' \<notin> set pre"
proof -
  from assms obtain s1 s2 s3 s4 s5 s6 s7 where
    i1: "scan_int s = Some (p, s1)" and c1: "expect_char CHR '':'' s1 = Some s2" and
    i2: "scan_int s2 = Some (x, s3)" and c2: "expect_char CHR '','' s3 = Some s4" and
    i3: "scan_int s4 = Some (y, s5)" and c3: "expect_char CHR ''/'' s5 = Some s6" and
    i4: "scan_int s6 = Some (d, s7)" and k: "k = length s - length s7"
    by (auto simp: sscanf_point_def split: option.splits)
  from scan_int_consumed [OF i1] obtain p1 where p1: "s = p1 @ s1" "CHR ''S'' \<notin> set p1" by blast
  from scan_int_consumed [OF i2] obtain p2 where p2: "s2 = p2 @ s3" "CHR ''S'' \<notin> set p2" by blast
  from scan_int_consumed [OF i3] obtain p3 where p3: "s4 = p3 @ s5" "CHR ''S'' \<notin> set p3" by blast
  from scan_int_consumed [OF i4] obtain p4 where p4: "s6 = p4 @ s7" "CHR ''S'' \<notin> set p4" by blast
  let ?pre = "p1 @ CHR '':'' # p2 @ CHR '','' # p3 @ CHR ''/'' # p4"
  have s: "s = ?pre @ s7"
    using p1(1) p2(1) p3(1) p4(1) expect_char_consumed [OF c1] expect_char_consumed [OF c2]
      expect_char_consumed [OF c3] by simp
  have kk: "k = length ?pre" unfolding k by (subst s) simp
  have "drop (length ?pre) (?pre @ s7) = s7" by (rule append_eq_conv_conj [THEN iffD1, THEN conjunct2, symmetric, OF refl])
  with s kk have "drop k s = s7" by metis
  with s kk p1(2) p2(2) p3(2) p4(2) show ?thesis
    by (intro exI [of _ ?pre]) auto
qed

lemma skip_semicolon_consumed:
  "\<exists>pre. s = pre @ skip_semicolon s \<and> CHR ''S'' \<notin> set pre"
proof (cases s)
  case Nil
  then show ?thesis by (simp add: skip_semicolon_def)
next
  case (Cons c cs)
  show ?thesis
  proof (cases "c = CHR '';''")
    case True
    with Cons have "s = [c] @ skip_semicolon s \<and> CHR ''S'' \<notin> set [c]"
      by (simp add: skip_semicolon_def)
    then show ?thesis by blast
  next
    case False
    with Cons have "s = [] @ skip_semicolon s \<and> CHR ''S'' \<notin> set []"
      by (simp add: skip_semicolon_def)
    then show ?thesis by blast
  qed
qed

lemma point_record_consumed:
  assumes "sscanf_point rest = Some (p, x, y, d, k)"
  shows "\<exists>pre. CHR ''P'' # rest = pre @ skip_semicolon (drop (k + 1) (CHR ''P'' # rest)) \<and>
               CHR ''S'' \<notin> set pre"
proof -
  from sscanf_point_consumed [OF assms] obtain p1 where
    p1: "rest = p1 @ drop k rest" "CHR ''S'' \<notin> set p1" by blast
  from skip_semicolon_consumed [of "drop k rest"] obtain p2 where
    p2: "drop k rest = p2 @ skip_semicolon (drop k rest)" "CHR ''S'' \<notin> set p2" by blast
  have "CHR ''P'' # rest = (CHR ''P'' # p1 @ p2) @ skip_semicolon (drop k rest)"
    using p1(1) p2(1) by (metis append.assoc append_Cons)
  moreover have "CHR ''S'' \<notin> set (CHR ''P'' # p1 @ p2)"
    using p1(2) p2(2) by simp
  ultimately show ?thesis by (intro exI [of _ "CHR ''P'' # p1 @ p2"]) simp
qed

lemma move_step_solve_flags:
  assumes "move_step n ret move = Some (ret', move')"
  shows "\<exists>pre. move = pre @ move' \<and>
           just_solved ret' = (just_solved ret \<or> CHR ''S'' \<in> set pre) \<and>
           cheated ret' = (cheated ret \<or> CHR ''S'' \<in> set pre)"
proof (cases "\<exists>cs. move = CHR ''S'' # cs")
  case True
  then obtain cs where m: "move = CHR ''S'' # cs" by blast
  from assms m obtain rest p x y d k where
    r: "skip_semicolon cs = CHR ''P'' # rest" "sscanf_point rest = Some (p, x, y, d, k)"
    "move' = skip_semicolon (drop (k + 1) (CHR ''P'' # rest))"
    "ret' = ret\<lparr>cheated := True, just_solved := True, pts := (pts ret)[nat p := Pt x y d]\<rparr>"
    by (auto simp: move_step_def split: list.splits if_splits option.splits)
  from skip_semicolon_consumed [of cs] obtain p1 where p1: "cs = p1 @ skip_semicolon cs" by blast
  from point_record_consumed [OF r(2)] r(3) obtain p2 where p2: "CHR ''P'' # rest = p2 @ move'"
    by auto
  have "move = (CHR ''S'' # p1 @ p2) @ move'"
    using m p1 p2 r(1) by (metis append.assoc append_Cons)
  with r(4) show ?thesis by (intro exI [of _ "CHR ''S'' # p1 @ p2"]) simp
next
  case False
  with assms obtain rest p x y d k where
    r: "move = CHR ''P'' # rest" "sscanf_point rest = Some (p, x, y, d, k)"
    "move' = skip_semicolon (drop (k + 1) (CHR ''P'' # rest))"
    "ret' = ret\<lparr>pts := (pts ret)[nat p := Pt x y d]\<rparr>"
    by (auto simp: move_step_def split: list.splits if_splits option.splits)
  from point_record_consumed [OF r(2)] r(1,3) obtain pre where
    "move = pre @ move'" "CHR ''S'' \<notin> set pre" by auto
  with r(4) show ?thesis by (intro exI [of _ pre]) simp
qed

lemma move_loop_solve_flags:
  "move_loop n ret move = Some ret' \<Longrightarrow>
     just_solved ret' = (just_solved ret \<or> CHR ''S'' \<in> set move) \<and>
     cheated ret' = (cheated ret \<or> CHR ''S'' \<in> set move)"
proof (induction n ret move rule: move_loop.induct)
  case (1 n ret)
  then show ?case by simp
next
  case (2 n ret c cs)
  from "2.prems" obtain ret1 move1 where
    s: "move_step n ret (c # cs) = Some (ret1, move1)" and l: "move_loop n ret1 move1 = Some ret'"
    by (auto split: option.splits)
  from move_step_solve_flags [OF s] obtain pre where
    pre: "c # cs = pre @ move1" "just_solved ret1 = (just_solved ret \<or> CHR ''S'' \<in> set pre)"
      "cheated ret1 = (cheated ret \<or> CHR ''S'' \<in> set pre)" by blast
  have "set (c # cs) = set pre \<union> set move1" by (subst pre(1)) simp
  with "2.IH" [OF s refl l] pre(2,3) show ?case by auto
qed


subsection \<open>Moves on the small game\<close>

lemma example_untangled:
  "execute_move example_heap 1 0 ''P3:0,3/1'' =
    Some (\<lparr>states = [0 \<mapsto> example_state,
                      1 \<mapsto> example_state\<lparr>pts := [Pt 0 0 1, Pt 2 2 1, Pt 0 2 1, Pt 0 3 1],
                                           completed := True\<rparr>],
            graphs = [0 \<mapsto> example_graph\<lparr>refcount := 2\<rparr>]\<rparr>, Some 1)"
  by (simp add: execute_move_def dup_game_def example_defs move_step_def c_library_defs cross_defs)

lemma solved_tangled_again:
  "execute_move solved_heap 1 0 ''P3:2,0/1'' =
    Some (\<lparr>states = [0 \<mapsto> example_state\<lparr>completed := True\<rparr>,
                      1 \<mapsto> example_state\<lparr>completed := True\<rparr>],
            graphs = [0 \<mapsto> example_graph\<lparr>refcount := 2\<rparr>]\<rparr>, Some 1)"
  by (simp add: execute_move_def dup_game_def example_defs move_step_def c_library_defs)


subsection \<open>Reading back what sprintf wrote\<close>


lemma isdigit_digit_char: "k < 10 \<Longrightarrow> isdigit_c (digit_char k)"
proof -
  assume "k < 10"
  then have "k \<in> {0,1,2,3,4,5,6,7,8,9}" by auto
  then show ?thesis by (auto simp: isdigit_c_def digit_char_def)
qed

lemma digit_val_digit_char: "k < 10 \<Longrightarrow> digit_val (digit_char k) = int k"
proof -
  assume "k < 10"
  then have "k \<in> {0,1,2,3,4,5,6,7,8,9}" by auto
  then show ?thesis by (auto simp: digit_val_def digit_char_def)
qed

lemma digits_of_all_digits: "\<forall>c \<in> set (digits_of k). isdigit_c c"
  by (induction k rule: digits_of.induct) (subst digits_of.simps, auto simp: isdigit_digit_char)

lemma digits_of_nonempty: "digits_of k \<noteq> []"
  by (subst digits_of.simps) simp

lemma digits_of_value: "foldl (\<lambda>v c. 10 * v + digit_val c) 0 (digits_of k) = int k"
proof (induction k rule: digits_of.induct)
  case (1 k)
  show ?case
  proof (cases "k < 10")
    case True
    then show ?thesis by (subst digits_of.simps) (simp add: digit_val_digit_char)
  next
    case False
    then have "foldl (\<lambda>v c. 10 * v + digit_val c) 0 (digits_of (k div 10)) = int (k div 10)"
      using 1 by simp
    with False show ?thesis
      by (subst digits_of.simps) (simp add: digit_val_digit_char zdiv_int zmod_int)
  qed
qed



lemma takeWhile_digits_of:
  "t = [] \<or> \<not> isdigit_c (hd t) \<Longrightarrow> takeWhile isdigit_c (digits_of k @ t) = digits_of k"
  using digits_of_all_digits [of k] by (cases t) (auto simp: takeWhile_append)

lemma dropWhile_digits_of:
  "t = [] \<or> \<not> isdigit_c (hd t) \<Longrightarrow> dropWhile isdigit_c (digits_of k @ t) = t"
  using digits_of_all_digits [of k] by (cases t) (auto simp: dropWhile_append)

lemma scan_digits_digits_of:
  "t = [] \<or> \<not> isdigit_c (hd t) \<Longrightarrow> scan_digits (digits_of k @ t) = Some (int k, t)"
  by (simp add: scan_digits_def takeWhile_digits_of dropWhile_digits_of digits_of_nonempty
      digits_of_value)

lemma hd_digits_of: "isdigit_c (hd (digits_of k))"
  using digits_of_all_digits [of k] digits_of_nonempty [of k] by (cases "digits_of k") auto

lemma isdigit_not_special:
  "isdigit_c c \<Longrightarrow> \<not> isspace_c c \<and> c \<noteq> CHR ''-'' \<and> c \<noteq> CHR ''+''"
  by (auto simp: isdigit_c_def isspace_c_def)

lemma scan_int_sprintf_d:
  assumes "t = [] \<or> \<not> isdigit_c (hd t)"
  shows "scan_int (sprintf_d i @ t) = Some (i, t)"
proof (cases "i < 0")
  case True
  then show ?thesis
    using scan_digits_digits_of [OF assms, of "nat (- i)"]
    by (simp add: scan_int_def sprintf_d_def isspace_c_def)
next
  case False
  obtain c cs where cs: "digits_of (nat i) = c # cs"
    using digits_of_nonempty [of "nat i"] by (cases "digits_of (nat i)") auto
  have "isdigit_c c" using hd_digits_of [of "nat i"] cs by simp
  from isdigit_not_special [OF this] have c: "\<not> isspace_c c" "c \<noteq> CHR ''-''" "c \<noteq> CHR ''+''"
    by auto
  have "scan_digits (c # cs @ t) = Some (i, t)"
    using scan_digits_digits_of [OF assms, of "nat i"] False cs by simp
  with False cs c show ?thesis
    by (simp add: scan_int_def sprintf_d_def)
qed









subsection \<open>The move loop on written moves\<close>

lemma scan_int_sprintf_d_sep:
  "\<not> isdigit_c c \<Longrightarrow> scan_int (sprintf_d i @ c # r) = Some (i, c # r)"
  by (rule scan_int_sprintf_d) simp

lemma sscanf_point_roundtrip:
  assumes "t = [] \<or> \<not> isdigit_c (hd t)"
  shows "sscanf_point (sprintf_d p @ CHR '':'' # sprintf_d x @ CHR '','' # sprintf_d y @
                        CHR ''/'' # sprintf_d d @ t) =
    Some (p, x, y, d, length (sprintf_d p @ CHR '':'' # sprintf_d x @ CHR '','' # sprintf_d y @
                        CHR ''/'' # sprintf_d d))"
proof -
  have sep: "\<not> isdigit_c CHR '':''" "\<not> isdigit_c CHR '',''" "\<not> isdigit_c CHR ''/''"
    by (simp_all add: isdigit_c_def)
  have 4: "scan_int (sprintf_d d @ t) = Some (d, t)"
    using assms by (rule scan_int_sprintf_d)
  show ?thesis
    unfolding sscanf_point_def
    by (simp add: scan_int_sprintf_d_sep sep 4 expect_char_def)
qed

lemma move_step_record:
  assumes "sscanf_point rest = Some (p, x, y, d, k)" and "0 \<le> p" "p < n" "0 < d"
  shows "move_step n ret (CHR ''P'' # rest) =
           Some (ret\<lparr>pts := (pts ret)[nat p := Pt x y d]\<rparr>, skip_semicolon (drop k rest))"
    and "move_step n ret (CHR ''S'' # CHR ''P'' # rest) =
           Some (ret\<lparr>cheated := True, just_solved := True, pts := (pts ret)[nat p := Pt x y d]\<rparr>,
                 skip_semicolon (drop k rest))"
    and "move_step n ret (CHR ''S'' # CHR '';'' # CHR ''P'' # rest) =
           Some (ret\<lparr>cheated := True, just_solved := True, pts := (pts ret)[nat p := Pt x y d]\<rparr>,
                 skip_semicolon (drop k rest))"
  using assms by (simp_all add: move_step_def skip_semicolon_def)

lemma move_step_item:
  assumes ok: "item_ok n it" and t: "t = [] \<or> (\<exists>t'. t = CHR '';'' # t')"
  shows "move_step n ret (item_text it @ t) = Some (apply_item ret it, tl t)"
proof -
  obtain m p pt where it: "it = (m, p, pt)" by (cases it) auto
  obtain x y d where pt: "pt = Pt x y d" by (cases pt) auto
  from ok it pt have r: "0 \<le> p" "p < n" "0 < d" by (simp_all add: item_ok_def)
  have nd: "t = [] \<or> \<not> isdigit_c (hd t)" using t by (auto simp: isdigit_c_def)
  define body where "body = sprintf_d p @ CHR '':'' # sprintf_d x @ CHR '','' # sprintf_d y @
                        CHR ''/'' # sprintf_d d"
  have sc: "sscanf_point (body @ t) = Some (p, x, y, d, length body)"
    using sscanf_point_roundtrip [OF nd, of p x y d] by (simp add: body_def)
  have sk: "skip_semicolon (drop (length body) (body @ t)) = tl t"
    using t by (auto simp: skip_semicolon_def)
  have rec: "point_record p pt = CHR ''P'' # body"
    by (simp add: point_record_def pt body_def)
  note steps = move_step_record [OF sc r, of ret, unfolded sk]
  show ?thesis
  proof (cases m)
    case Unmarked
    with it rec pt steps(1) show ?thesis by simp
  next
    case Marked
    with it rec pt steps(2) show ?thesis by simp
  next
    case Marked_semicolon
    with it rec pt steps(3) show ?thesis by simp
  qed
qed

lemma move_text_Cons:
  "\<exists>t. move_text (it # its) = item_text it @ t \<and> (t = [] \<or> (\<exists>t'. t = CHR '';'' # t')) \<and>
       tl t = move_text its"
  by (cases its) auto

lemma item_text_nonempty: "item_text it \<noteq> []"
  by (cases it) (simp add: point_record_def)







subsection \<open>Written moves with a bad record\<close>

lemma move_step_bad_record:
  assumes "sscanf_point rest = Some (p, x, y, d, k)" and "\<not> (0 \<le> p \<and> p < n \<and> 0 < d)"
  shows "move_step n ret (CHR ''P'' # rest) = None"
    and "move_step n ret (CHR ''S'' # CHR ''P'' # rest) = None"
    and "move_step n ret (CHR ''S'' # CHR '';'' # CHR ''P'' # rest) = None"
  using assms by (auto simp: move_step_def skip_semicolon_def)

lemma move_step_bad_item:
  assumes bad: "\<not> item_ok n it" and t: "t = [] \<or> (\<exists>t'. t = CHR '';'' # t')"
  shows "move_step n ret (item_text it @ t) = None"
proof -
  obtain m p pt where it: "it = (m, p, pt)" by (cases it) auto
  obtain x y d where pt: "pt = Pt x y d" by (cases pt) auto
  from bad it pt have r: "\<not> (0 \<le> p \<and> p < n \<and> 0 < d)" by (simp add: item_ok_def)
  have nd: "t = [] \<or> \<not> isdigit_c (hd t)" using t by (auto simp: isdigit_c_def)
  define body where "body = sprintf_d p @ CHR '':'' # sprintf_d x @ CHR '','' # sprintf_d y @
                        CHR ''/'' # sprintf_d d"
  have sc: "sscanf_point (body @ t) = Some (p, x, y, d, length body)"
    using sscanf_point_roundtrip [OF nd, of p x y d] by (simp add: body_def)
  have rec: "point_record p pt = CHR ''P'' # body"
    by (simp add: point_record_def pt body_def)
  note steps = move_step_bad_record [OF sc r, of ret]
  show ?thesis
  proof (cases m)
    case Unmarked
    with it rec steps(1) show ?thesis by simp
  next
    case Marked
    with it rec steps(2) show ?thesis by simp
  next
    case Marked_semicolon
    with it rec steps(3) show ?thesis by simp
  qed
qed

text \<open>
  A written move in which one record has an index outside \<open>[0, n)\<close> or a denominator
  that is not positive holds a malformed record, wherever that record stands.
\<close>

lemma written_move_malformed:
  assumes "list_all (item_ok n) its" and "\<not> item_ok n it"
  shows "malformed_stream n (move_text (its @ it # others))"
  using assms(1)
proof (induction its)
  case Nil
  from move_text_Cons [of it others] obtain t where
    t: "move_text (it # others) = item_text it @ t" "t = [] \<or> (\<exists>t'. t = CHR '';'' # t')" by blast
  have "move_step n example_state (item_text it @ t) = None"
    using assms(2) t(2) by (rule move_step_bad_item)
  moreover have "item_text it @ t \<noteq> []" using item_text_nonempty [of it] by simp
  ultimately show ?case using t(1) by (auto intro: malformed_stream.here)
next
  case (Cons i1 its)
  from move_text_Cons [of i1 "its @ it # others"] obtain t where
    t: "move_text (i1 # its @ it # others) = item_text i1 @ t" "t = [] \<or> (\<exists>t'. t = CHR '';'' # t')"
       "tl t = move_text (its @ it # others)" by blast
  from Cons.prems have ok: "item_ok n i1" and oks: "list_all (item_ok n) its" by simp_all
  have "move_step n example_state (item_text i1 @ t) = Some (apply_item example_state i1, move_text (its @ it # others))"
    using move_step_item [OF ok t(2), of example_state] t(3) by simp
  from malformed_stream.later [OF this Cons.IH [OF oks]] t(1) show ?case by simp
qed

text \<open>So is a string in which something that starts with neither \<^verbatim>\<open>S\<close> nor \<^verbatim>\<open>P\<close> follows valid records.\<close>

lemma move_step_junk:
  "c \<noteq> CHR ''S'' \<Longrightarrow> c \<noteq> CHR ''P'' \<Longrightarrow> move_step n ret (c # junk) = None"
  by (simp add: move_step_def)

lemma junk_after_records_malformed:
  assumes "list_all (item_ok n) its" and "c \<noteq> CHR ''S''" "c \<noteq> CHR ''P''"
  shows "malformed_stream n (move_text its @ CHR '';'' # c # junk)"
  using assms(1)
proof (induction its rule: move_text.induct)
  case 1
  have "move_step n example_state (CHR '';'' # c # junk) = None" by (simp add: move_step_def)
  then show ?case by (auto intro: malformed_stream.here)
next
  case (2 it)
  then have ok: "item_ok n it" by simp
  have "move_step n example_state (item_text it @ CHR '';'' # c # junk) =
      Some (apply_item example_state it, c # junk)"
    using move_step_item [OF ok, of "CHR '';'' # c # junk" example_state] by simp
  moreover have "malformed_stream n (c # junk)"
    using move_step_junk [OF assms(2,3), of n example_state junk] by (auto intro: malformed_stream.here)
  ultimately show ?case by (auto intro: malformed_stream.later)
next
  case (3 it v va)
  then have ok: "item_ok n it" and oks: "list_all (item_ok n) (v # va)" by simp_all
  have "move_step n example_state (item_text it @ CHR '';'' # (move_text (v # va) @ CHR '';'' # c # junk)) =
      Some (apply_item example_state it, move_text (v # va) @ CHR '';'' # c # junk)"
    using move_step_item [OF ok, of "CHR '';'' # (move_text (v # va) @ CHR '';'' # c # junk)" example_state]
    by simp
  from malformed_stream.later [OF this "3.IH" [OF oks]] show ?case by simp
qed



section \<open>Lemmas on the generator\<close>

subsection \<open>Sorted trees\<close>

lemma closer_trans: "closer a b \<Longrightarrow> closer b c \<Longrightarrow> closer a c"
  by (auto simp: closer_def)

lemma vertcmpC_less: "vertcmpC a b < 0 \<longleftrightarrow> closer a b"
  by (auto simp: vertcmpC_def closer_def)

lemma vertcmpC_greater: "\<not> vertcmpC a b < 0 \<Longrightarrow> vertcmpC a b \<noteq> 0 \<Longrightarrow> closer b a"
  by (auto simp: vertcmpC_def closer_def split: if_splits)

lemma del234_vertcmpC: "del234 vertcmpC v vertices = remove1 v vertices"
  by (induction vertices) (auto simp: vertcmpC_0)

lemma sorted_remove1: "sorted_wrt closer vertices \<Longrightarrow> sorted_wrt closer (remove1 v vertices)"
  by (induction vertices) (auto dest: notin_set_remove1)

lemma sorted_add234:
  assumes "sorted_wrt closer vertices"
  shows "sorted_wrt closer (add234 vertcmpC v vertices)"
  using assms
proof (induction vertices)
  case Nil
  then show ?case by simp
next
  case (Cons u us)
  consider (less) "vertcmpC v u < 0" | (eq) "vertcmpC v u = 0" | (greater) "\<not> vertcmpC v u < 0" "vertcmpC v u \<noteq> 0"
    by blast
  then show ?case
  proof cases
    case less
    then have "closer v u" by (simp add: vertcmpC_less)
    with Cons.prems have "\<forall>w \<in> set (u # us). closer v w" by (auto intro: closer_trans)
    with less Cons.prems show ?thesis by simp
  next
    case eq
    with Cons.prems show ?thesis by simp
  next
    case greater
    from vertcmpC_greater [OF greater] have "closer u v" .
    with greater Cons show ?thesis by (auto simp: set_add234)
  qed
qed

lemma sorted_bump_degree:
  "sorted_wrt closer vertices \<Longrightarrow> sorted_wrt closer (bump_degree v vertices)"
  by (simp add: bump_degree_def del234_vertcmpC sorted_remove1 sorted_add234)

lemma distinct_vindex_records: "distinct (map vindex vertices) \<Longrightarrow> distinct vertices"
  by (simp add: distinct_map)

lemma set_bump_degree:
  assumes "distinct (map vindex vertices)" and "v \<in> set vertices"
  shows "set (bump_degree v vertices) = insert (v\<lparr>param := param v + 1\<rparr>) (set vertices - {v})"
  using assms distinct_vindex_records [OF assms(1)]
  by (simp add: bump_degree_def del234_vertcmpC set_add234)

lemma vindex_remove1:
  assumes "distinct (map vindex vertices)" and "v \<in> set vertices"
  shows "vindex v \<notin> vindex ` set (remove1 v vertices) \<and> distinct (map vindex (remove1 v vertices))"
proof -
  from assms(1) have d: "distinct vertices" and i: "inj_on vindex (set vertices)"
    by (simp_all add: distinct_map)
  from d have s: "set (remove1 v vertices) = set vertices - {v}" by (rule set_remove1_eq)
  from i assms(2) have "vindex v \<notin> vindex ` (set vertices - {v})"
    by (auto dest: inj_onD)
  moreover from i have "inj_on vindex (set vertices - {v})"
    by (rule inj_on_subset) auto
  ultimately show ?thesis using d s by (simp add: distinct_map)
qed

lemma distinct_add234:
  "vindex v \<notin> vindex ` set vertices \<Longrightarrow> distinct (map vindex vertices) \<Longrightarrow>
     distinct (map vindex (add234 vertcmpC v vertices))"
proof (induction vertices)
  case Nil
  then show ?case by simp
next
  case (Cons u us)
  then show ?case by (auto simp: set_add234)
qed

lemma distinct_bump_degree:
  assumes "distinct (map vindex vertices)" and "v \<in> set vertices"
  shows "distinct (map vindex (bump_degree v vertices))"
  using vindex_remove1 [OF assms]
  by (simp add: bump_degree_def del234_vertcmpC distinct_add234)

lemma vindex_bump_degree:
  assumes "distinct (map vindex vertices)" and "v \<in> set vertices"
  shows "vindex ` set (bump_degree v vertices) = vindex ` set vertices"
  unfolding set_bump_degree [OF assms] using assms(2) by auto

subsection \<open>Candidate lists\<close>

lemma vertcmpC_le0: "vertcmpC a b \<le> 0 \<longleftrightarrow> closer a b \<or> (param a = param b \<and> vindex a = vindex b)"
  by (auto simp: vertcmpC_def closer_def)

lemma set_insert_sorted: "set (insert_sorted v vl) = insert v (set vl)"
  by (induction vl) auto

lemma set_qsort: "set (qsort_vertcmpC vl) = set vl"
  unfolding qsort_vertcmpC_def by (induction vl) (auto simp: set_insert_sorted)

lemma sorted_insert_sorted:
  assumes "sorted_wrt closer vl" and "vindex v \<notin> vindex ` set vl"
  shows "sorted_wrt closer (insert_sorted v vl)"
  using assms
proof (induction vl)
  case Nil
  then show ?case by simp
next
  case (Cons u us)
  show ?case
  proof (cases "vertcmpC v u \<le> 0")
    case True
    with Cons.prems have vu: "closer v u" by (auto simp: vertcmpC_le0)
    with Cons.prems have "\<forall>w \<in> set us. closer v w" by (auto intro: closer_trans)
    with True vu Cons.prems show ?thesis by simp
  next
    case False
    then have uv: "closer u v" by (auto simp: vertcmpC_def closer_def split: if_splits)
    from Cons have "sorted_wrt closer (insert_sorted v us)" by simp
    with False uv Cons.prems show ?thesis by (auto simp: set_insert_sorted)
  qed
qed

lemma sorted_qsort:
  "distinct (map vindex vl) \<Longrightarrow> sorted_wrt closer (qsort_vertcmpC vl)"
  unfolding qsort_vertcmpC_def
proof (induction vl)
  case Nil
  then show ?case by simp
next
  case (Cons v vl)
  then show ?case
    using set_qsort [of vl, unfolded qsort_vertcmpC_def]
    by (auto intro!: sorted_insert_sorted)
qed

lemma edgecmpC_0: "edgecmpC e1 e2 = 0 \<longleftrightarrow> e1 = e2"
  by (auto simp: edgecmpC_def)

lemma isedge_adjacent: "a \<noteq> b \<Longrightarrow> isedge es a b = Some (adjacent es a b)"
  by (auto simp: isedge_def adjacent_def find234_def edgecmpC_0 find_None_iff)

lemma build_vlist_result:
  assumes "j \<notin> vindex ` set kvs"
  shows "\<exists>vl. build_vlist ps es j kvs = Some vl \<and>
     map vindex vl = map vindex (filter (\<lambda>kv. param kv < MAXDEGREE \<and> \<not> adjacent es (vindex kv) j) kvs) \<and>
     (\<forall>c \<in> set vl. param c = sqdist (ps ! nat (vindex c)) (ps ! nat j))"
  using assms
proof (induction kvs)
  case Nil
  then show ?case by simp
next
  case (Cons kv kvs)
  then obtain vl where vl: "build_vlist ps es j kvs = Some vl"
     "map vindex vl = map vindex (filter (\<lambda>kv. param kv < MAXDEGREE \<and> \<not> adjacent es (vindex kv) j) kvs)"
     "\<forall>c \<in> set vl. param c = sqdist (ps ! nat (vindex c)) (ps ! nat j)"
    by auto
  from Cons.prems have "vindex kv \<noteq> j" by auto
  from isedge_adjacent [OF this] vl show ?case
    by (auto simp: Let_def sqdist_def)
qed

text \<open>The candidate list at any position of the scan: only later elements of the tree.\<close>

lemma candidates_at_position:
  assumes d: "distinct (map vindex vertices)" and n: "length vertices = nat n" and i: "i < length vertices"
  shows "\<exists>vl. candidates n ps es vertices i = Some vl \<and>
    vindex ` set vl =
      {vindex kv | kv. kv \<in> set (drop (i + 1) vertices) \<and> param kv < MAXDEGREE \<and>
                       \<not> adjacent es (vindex kv) (vindex (vertices ! i))} \<and>
    (\<forall>c \<in> set vl. param c = sqdist (ps ! nat (vindex c)) (ps ! nat (vindex (vertices ! i)))) \<and>
    sorted_wrt closer vl"
proof -
  let ?j = "vindex (vertices ! i)"
  let ?rest = "drop (i + 1) vertices"
  have v: "vertices = take i vertices @ vertices ! i # ?rest"
    using i by (simp add: id_take_nth_drop)
  have "distinct (map vindex (take i vertices @ vertices ! i # ?rest))"
    using d v by simp
  then have nj: "?j \<notin> vindex ` set ?rest" and dr: "distinct (map vindex ?rest)"
    by auto
  from build_vlist_result [OF nj, of ps es] obtain vl where vl: "build_vlist ps es ?j ?rest = Some vl"
     "map vindex vl = map vindex (filter (\<lambda>kv. param kv < MAXDEGREE \<and> \<not> adjacent es (vindex kv) ?j) ?rest)"
     "\<forall>c \<in> set vl. param c = sqdist (ps ! nat (vindex c)) (ps ! nat ?j)"
    by blast
  from dr have "distinct (map vindex (filter (\<lambda>kv. param kv < MAXDEGREE \<and> \<not> adjacent es (vindex kv) ?j) ?rest))"
    by (rule distinct_map_filter)
  with vl(2) have dv: "distinct (map vindex vl)" by simp
  have c: "candidates n ps es vertices i = Some (qsort_vertcmpC vl)"
    using vl(1) n by (simp add: candidates_def)
  have "vindex ` set (qsort_vertcmpC vl) = set (map vindex vl)"
    by (simp add: set_qsort)
  also have "\<dots> = {vindex kv | kv. kv \<in> set ?rest \<and> param kv < MAXDEGREE \<and> \<not> adjacent es (vindex kv) ?j}"
    unfolding vl(2) by auto
  finally show ?thesis
    using c vl(3) sorted_qsort [OF dv] by (simp add: set_qsort)
qed

lemma first_free_mem: "first_free n ps es j vl = Some ki \<Longrightarrow> ki \<in> vindex ` set vl"
  by (induction vl) (auto split: if_splits)

subsection \<open>What a round changes\<close>

lemma scan_vertices_added:
  assumes "scan_vertices n ps es vertices i = Added es' vertices'"
    and "distinct (map vindex vertices)"
    and "length vertices = nat n"
  shows "\<exists>v kv. v \<in> set vertices \<and> kv \<in> set vertices \<and> vindex v \<noteq> vindex kv \<and>
     param v < MAXDEGREE \<and> param kv < MAXDEGREE \<and>
     \<not> adjacent es (vindex kv) (vindex v) \<and>
     es' = add234 edgecmpC (Edge (min (vindex v) (vindex kv)) (max (vindex v) (vindex kv))) es \<and>
     vertices' = bump_degree kv (bump_degree v vertices)"
  using assms
proof (induction n ps es vertices i rule: scan_vertices.induct)
  case (1 n ps es vertices i)
  from "1.prems" obtain v where v: "int i < n" "index234 vertices i = Some v" "\<not> param v \<ge> MAXDEGREE"
    by (subst (asm) scan_vertices.simps) (auto split: if_splits option.splits)
  from "1.prems" v obtain vlist where vl: "candidates n ps es vertices i = Some vlist"
    by (subst (asm) scan_vertices.simps) (auto split: if_splits option.splits)
  from v(2) have il: "i < length vertices" and vi: "v = vertices ! i"
    by (auto simp: index234_def split: if_splits)
  show ?case
  proof (cases "first_free n ps es (vindex v) vlist")
    case None
    with "1.prems" v vl have "scan_vertices n ps es vertices (i + 1) = Added es' vertices'"
      by (subst (asm) scan_vertices.simps) simp
    with "1.IH" v vl None "1.prems"(2,3) show ?thesis by simp
  next
    case (Some ki)
    with "1.prems" v vl obtain es1 kv where
      a: "addedge es (vindex v) ki = Some es1" and
      f: "find (\<lambda>u. vindex u = ki) vertices = Some kv" and
      r: "vertices' = bump_degree kv (bump_degree v vertices)" "es' = es1"
      by (subst (asm) scan_vertices.simps) (auto split: option.splits)
    from il vi have vm: "v \<in> set vertices" by simp
    from f have km: "kv \<in> set vertices" "vindex kv = ki"
      by (auto simp: find_Some_iff)
    from a have ne: "vindex v \<noteq> ki" and es1: "es1 = add234 edgecmpC (Edge (min (vindex v) ki) (max (vindex v) ki)) es"
      by (auto simp: addedge_def split: if_splits)
    from candidates_at_position [OF "1.prems"(2,3) il, of ps es] vl
    have "vindex ` set vlist =
      {vindex kv | kv. kv \<in> set (drop (i + 1) vertices) \<and> param kv < MAXDEGREE \<and>
                       \<not> adjacent es (vindex kv) (vindex (vertices ! i))}"
      by auto
    with first_free_mem [OF Some] obtain kv' where
      kv': "kv' \<in> set (drop (i + 1) vertices)" "param kv' < MAXDEGREE" "vindex kv' = ki"
        "\<not> adjacent es ki (vindex v)"
      using vi by auto
    from kv'(1) have "kv' \<in> set vertices" by (rule in_set_dropD)
    with km kv'(3) "1.prems"(2) have "kv' = kv"
      by (auto simp: distinct_map dest: inj_onD)
    with kv' km vm v(3) ne es1 r show ?thesis
      by (intro exI [of _ v] exI [of _ kv]) auto
  qed
qed

subsection \<open>The invariant of the greedy loop\<close>

lemma length_filter_add234:
  "e \<notin> set es \<Longrightarrow>
     length (filter P (add234 edgecmpC e es)) = length (filter P es) + (if P e then 1 else 0)"
  by (induction es) (auto simp: edgecmpC_0)

lemma degree_add234:
  assumes "e \<notin> set es"
  shows "degree (add234 edgecmpC e es) u = degree es u + (if edge_a e = u \<or> edge_b e = u then 1 else 0)"
  unfolding degree_def length_filter_add234 [OF assms] by simp

lemma generator_inv_initial: "generator_inv n [] (initial_vertices n)"
proof -
  have s: "sorted_wrt closer (map (\<lambda>i. \<lparr>param = 0, vindex = int i\<rparr>) [0..<k])" for k
    by (induction k) (auto simp: sorted_wrt_append closer_def)
  have m: "map vindex (initial_vertices n) = map int [0..<nat n]"
    by (simp add: initial_vertices_def comp_def)
  have d: "distinct (map vindex (initial_vertices n))"
    unfolding m by (simp add: distinct_map inj_on_def)
  have "vindex ` set (initial_vertices n) = set (map vindex (initial_vertices n))" by simp
  also have "\<dots> = int ` {0..<nat n}" unfolding m by simp
  also have "\<dots> = {0..<n}"
  proof
    show "int ` {0..<nat n} \<subseteq> {0..<n}" by auto
    show "{0..<n} \<subseteq> int ` {0..<nat n}"
    proof
      fix x assume "x \<in> {0..<n}"
      then have "x = int (nat x)" "nat x \<in> {0..<nat n}" by auto
      then show "x \<in> int ` {0..<nat n}" by (rule image_eqI)
    qed
  qed
  finally have i: "vindex ` set (initial_vertices n) = {0..<n}" .
  have p: "\<forall>v \<in> set (initial_vertices n). param v = degree [] (vindex v)"
    by (auto simp: initial_vertices_def degree_def)
  from s [of "nat n"] d i p show ?thesis
    by (simp add: generator_inv_def initial_vertices_def)
qed

lemma generator_inv_length:
  assumes "generator_inv n es vertices"
  shows "length vertices = nat n"
proof -
  from assms have d: "distinct (map vindex vertices)" and i: "vindex ` set vertices = {0..<n}"
    by (simp_all add: generator_inv_def)
  have "length vertices = length (map vindex vertices)" by simp
  also have "\<dots> = card (set (map vindex vertices))" using distinct_card [OF d] by simp
  also have "\<dots> = card {0..<n}" using i by simp
  finally show ?thesis by simp
qed

lemma generator_inv_round:
  assumes inv: "generator_inv n es vertices"
    and sc: "scan_vertices n ps es vertices i = Added es' vertices'"
  shows "generator_inv n es' vertices'"
proof -
  from inv have so: "sorted_wrt closer vertices" and d: "distinct (map vindex vertices)"
    and im: "vindex ` set vertices = {0..<n}"
    and pa: "\<forall>v \<in> set vertices. param v = degree es (vindex v)"
    by (simp_all add: generator_inv_def)
  from scan_vertices_added [OF sc d generator_inv_length [OF inv]] obtain v kv where
    v: "v \<in> set vertices" and kv: "kv \<in> set vertices" and ne: "vindex v \<noteq> vindex kv" and
    na: "\<not> adjacent es (vindex kv) (vindex v)" and
    es': "es' = add234 edgecmpC (Edge (min (vindex v) (vindex kv)) (max (vindex v) (vindex kv))) es" and
    vs': "vertices' = bump_degree kv (bump_degree v vertices)"
    by blast
  let ?e = "Edge (min (vindex v) (vindex kv)) (max (vindex v) (vindex kv))"
  let ?v1 = "bump_degree v vertices"
  from ne have kvv: "kv \<noteq> v" by auto
  have kv1: "kv \<in> set ?v1" using kv kvv by (rule mem_bump_degree)
  have d1: "distinct (map vindex ?v1)" using d v by (rule distinct_bump_degree)
  have 1: "sorted_wrt closer vertices'"
    unfolding vs' using so by (intro sorted_bump_degree)
  have 2: "distinct (map vindex vertices')"
    unfolding vs' using d1 kv1 by (rule distinct_bump_degree)
  have 3: "vindex ` set vertices' = {0..<n}"
    unfolding vs' vindex_bump_degree [OF d1 kv1] vindex_bump_degree [OF d v] by (rule im)
  have en: "?e \<notin> set es"
    using na by (simp add: adjacent_def min.commute max.commute)
  have deg: "degree es' u = degree es u + (if u = vindex v \<or> u = vindex kv then 1 else 0)" for u
    unfolding es' degree_add234 [OF en] using ne by (auto simp: min_def max_def)
  have s2: "set vertices' =
      insert (kv\<lparr>param := param kv + 1\<rparr>) (insert (v\<lparr>param := param v + 1\<rparr>) (set vertices - {v}) - {kv})"
    unfolding vs' set_bump_degree [OF d1 kv1] set_bump_degree [OF d v] ..
  from d have inj: "inj_on vindex (set vertices)" by (simp add: distinct_map)
  have 4: "\<forall>w \<in> set vertices'. param w = degree es' (vindex w)"
  proof
    fix w assume "w \<in> set vertices'"
    with s2 consider (k) "w = kv\<lparr>param := param kv + 1\<rparr>" | (j) "w = v\<lparr>param := param v + 1\<rparr>"
      | (other) "w \<in> set vertices" "w \<noteq> v" "w \<noteq> kv"
      by auto
    then show "param w = degree es' (vindex w)"
    proof cases
      case k
      with pa kv deg [of "vindex kv"] show ?thesis by simp
    next
      case j
      with pa v deg [of "vindex v"] show ?thesis by simp
    next
      case other
      with inj v kv have "vindex w \<noteq> vindex v" "vindex w \<noteq> vindex kv"
        by (auto dest: inj_onD)
      with pa other(1) deg [of "vindex w"] show ?thesis by simp
    qed
  qed
  from 1 2 3 4 show ?thesis by (simp add: generator_inv_def)
qed

lemma round_state_inv: "round_state n ps es vertices \<Longrightarrow> generator_inv n es vertices"
  by (induction rule: round_state.induct) (auto intro: generator_inv_initial generator_inv_round)

subsection \<open>No round aborts, and the greedy loop returns\<close>

lemma scan_vertices_never_aborts:
  assumes "generator_inv n es vertices"
  shows "scan_vertices n ps es vertices i \<noteq> Aborted"
  using assms
proof (induction n ps es vertices i rule: scan_vertices.induct)
  case (1 n ps es vertices i)
  from "1.prems" have d: "distinct (map vindex vertices)"
    by (simp add: generator_inv_def)
  show ?case
  proof (cases "int i < n")
    case False
    then show ?thesis by (subst scan_vertices.simps) simp
  next
    case True
    with generator_inv_length [OF "1.prems"] have il: "i < length vertices" by simp
    then have ix: "index234 vertices i = Some (vertices ! i)" by (simp add: index234_def)
    let ?v = "vertices ! i"
    show ?thesis
    proof (cases "param ?v \<ge> MAXDEGREE")
      case True
      with \<open>int i < n\<close> ix show ?thesis by (subst scan_vertices.simps) simp
    next
      case False
      from candidates_at_position [OF d generator_inv_length [OF "1.prems"] il, of ps es] obtain vl where
        c: "candidates n ps es vertices i = Some vl" and
        s: "vindex ` set vl =
          {vindex kv | kv. kv \<in> set (drop (i + 1) vertices) \<and> param kv < MAXDEGREE \<and>
                       \<not> adjacent es (vindex kv) (vindex ?v)}"
        by blast
      show ?thesis
      proof (cases "first_free n ps es (vindex ?v) vl")
        case None
        with "1.IH" [OF _ ix _ c] \<open>int i < n\<close> False "1.prems" ix c show ?thesis
          by (subst scan_vertices.simps) simp
      next
        case (Some ki)
        from first_free_mem [OF Some] s obtain kv where
          kv: "kv \<in> set (drop (i + 1) vertices)" "vindex kv = ki" by auto
        have v: "vertices = take i vertices @ ?v # drop (i + 1) vertices"
          using il by (simp add: id_take_nth_drop)
        have "distinct (map vindex (take i vertices @ ?v # drop (i + 1) vertices))"
          using d v by simp
        with kv have ne: "vindex ?v \<noteq> ki" by auto
        from kv(1) have "kv \<in> set vertices" by (rule in_set_dropD)
        with kv(2) obtain kv' where f: "find (\<lambda>u. vindex u = ki) vertices = Some kv'"
          by (cases "find (\<lambda>u. vindex u = ki) vertices") (auto simp: find_None_iff)
        from \<open>int i < n\<close> False ix c Some ne f show ?thesis
          by (subst scan_vertices.simps) (simp add: addedge_def)
      qed
    qed
  qed
qed

lemma generate_returns:
  "generator_inv n es vertices \<Longrightarrow> \<exists>es' vertices'. generate n ps es vertices = Some (es', vertices')"
proof (induction n ps es vertices rule: generate.induct)
  case (1 n ps es vertices)
  show ?case
  proof (cases "scan_vertices n ps es vertices 0")
    case Aborted
    with scan_vertices_never_aborts [OF "1.prems"] show ?thesis by simp
  next
    case Nothing_added
    then show ?thesis by (subst generate.simps) simp
  next
    case (Added es1 vs1)
    from generator_inv_round [OF "1.prems" Added] have "generator_inv n es1 vs1" .
    from "1.IH" [OF Added this] Added show ?thesis by (subst generate.simps) simp
  qed
qed

subsection \<open>When the scrambler ends\<close>

lemma scramble_returns_at_crossing:
  assumes "shuffle rs tmp = (tmp', rs')" and "find_crossing (\<lambda>v. pts2 ! nat (tmp' ! nat v)) es"
  shows "scramble shuffle pts2 es tmp rs = Some (tmp', rs')"
  using assms by (subst scramble.simps) simp

lemma scramble_goes_on:
  assumes "shuffle rs tmp = (tmp', rs')" and "\<not> find_crossing (\<lambda>v. pts2 ! nat (tmp' ! nat v)) es"
  shows "scramble shuffle pts2 es tmp rs = scramble shuffle pts2 es tmp' rs'"
  using assms by (subst scramble.simps) simp

lemma scramble_never_ends:
  assumes "\<And>tmp. \<not> find_crossing (\<lambda>v. pts2 ! nat (tmp ! nat v)) es"
  shows "scramble shuffle pts2 es tmp rs = None"
proof (rule ccontr)
  assume "scramble shuffle pts2 es tmp rs \<noteq> None"
  then obtain y where y: "scramble shuffle pts2 es tmp rs = Some y" by auto
  have "find_crossing (\<lambda>v. pts2 ! nat (fst y ! nat v)) es"
    by (rule scramble.raw_induct
          [where P = "\<lambda>shuffle pts2 es tmp rs y. find_crossing (\<lambda>v. pts2 ! nat (fst y ! nat v)) es",
           OF _ y])
       (auto split: prod.splits if_splits)
  with assms show False by blast
qed

lemma scramble_single_edge: "scramble shuffle pts2 [e] tmp rs = None"
  by (rule scramble_never_ends) simp

lemma example_first_round:
  "scan_vertices 4 example_points [] (initial_vertices 4) 0 =
     Added [Edge 0 2]
       [\<lparr>param = 0, vindex = 1\<rparr>, \<lparr>param = 0, vindex = 3\<rparr>, \<lparr>param = 1, vindex = 0\<rparr>,
        \<lparr>param = 1, vindex = 2\<rparr>]"
  by (subst scan_vertices.simps)
     (simp add: generator_defs example_points_def upt_rec cross_defs)

section \<open>The completion flag\<close>



text \<open>
  Claim C3. When a move is accepted on a state that is completed, the new state is
  completed as well, whatever the new positions are: the flag is copied by
  \<^verbatim>\<open>dup_game\<close> and the check that could clear it is skipped.
\<close>

theorem completed_is_sticky:
  assumes "execute_move hp new sp move = Some (hp', Some r)"
    and "states hp sp = Some state"
    and "completed state"
  shows "\<exists>state'. states hp' r = Some state' \<and> completed state'"
  using assms by (auto elim!: execute_move_accepted)

text \<open>
  The witness: in the solved game the move puts point 3 back where the two edges cross,
  and the new state is completed all the same.
\<close>

theorem completed_is_sticky_witness:
  "\<exists>hp' state'. execute_move solved_heap 1 0 ''P3:2,0/1'' = Some (hp', Some 1) \<and>
     states hp' 1 = Some state' \<and> completed state' \<and>
     find_crossing (\<lambda>v. pts state' ! nat v) (edges example_graph)"
proof -
  have s: "states solved_heap 0 = Some (example_state\<lparr>completed := True\<rparr>)"
    and c: "completed (example_state\<lparr>completed := True\<rparr>)"
    by (simp_all add: example_defs)
  from completed_is_sticky [OF solved_tangled_again s c] obtain state' where
    st: "states \<lparr>states = [0 \<mapsto> example_state\<lparr>completed := True\<rparr>,
                      1 \<mapsto> example_state\<lparr>completed := True\<rparr>],
            graphs = [0 \<mapsto> example_graph\<lparr>refcount := 2\<rparr>]\<rparr> 1 = Some state'"
      and "completed state'"
    by blast
  moreover from st have "state' = example_state\<lparr>completed := True\<rparr>" by simp
  then have "find_crossing (\<lambda>v. pts state' ! nat v) (edges example_graph)"
    by (simp add: example_defs cross_defs)
  ultimately show ?thesis using solved_tangled_again by blast
qed

section \<open>Rejected moves\<close>



section \<open>The just-solved flag\<close>

text \<open>
  Claim C5 says that the flag \<^verbatim>\<open>just_solved\<close> is raised by every move that takes a state
  from not completed to completed. The source sets it from the solve marker alone. In the
  small game the move of point 3 uncrosses the edges: the new state is completed and its
  \<^verbatim>\<open>just_solved\<close> is clear.
\<close>

theorem completing_move_leaves_just_solved_clear:
  "\<not> completed example_state \<and>
   returned_state (execute_move example_heap 1 0 ''P3:0,3/1'') =
     Some \<lparr>params_n = 4, state_w = 3, state_h = 3,
           pts = [Pt 0 0 1, Pt 2 2 1, Pt 0 2 1, Pt 0 3 1], graph = 0,
           completed = True, cheated = False, just_solved = False\<rparr>"
  by (subst example_untangled) (simp add: returned_state_def example_defs)

text \<open>
  Claim C5, amended. The state that an accepted move produces has \<^verbatim>\<open>just_solved\<close> set
  if and only if the move string holds a solve marker \<^verbatim>\<open>S\<close>, whether or not the move
  completes the puzzle; so every accepted move without a solve marker leaves it clear.
\<close>

theorem just_solved_iff_solve_marker:
  assumes "execute_move hp new sp move = Some (hp', Some r)"
    and "states hp sp = Some state"
  shows "\<exists>state'. states hp' r = Some state' \<and> (just_solved state' \<longleftrightarrow> CHR ''S'' \<in> set move)"
  using assms by (auto elim!: execute_move_accepted dest!: move_loop_solve_flags)

theorem just_solved_iff_solve_marker_witness:
  "\<exists>hp' state'. execute_move example_heap 1 0 ''P3:0,3/1'' = Some (hp', Some 1) \<and>
     states hp' 1 = Some state' \<and> (just_solved state' \<longleftrightarrow> CHR ''S'' \<in> set ''P3:0,3/1'')"
proof -
  have s: "states example_heap 0 = Some example_state"
    by (simp add: example_defs)
  from just_solved_iff_solve_marker [OF example_untangled s] example_untangled
  show ?thesis by blast
qed

section \<open>Solve markers\<close>




section \<open>Descriptions that validate-desc accepts\<close>



section \<open>The crossing predicate on the documented examples\<close>

text \<open>
  Claim C6. With the collinear points \<open>p1 = (0,0,1)\<close>, \<open>p2 = (1,0,1)\<close>, \<open>p3 = (2,0,1)\<close>:
  \<open>cross p1 p3 p2 p2\<close> is true (a degenerate segment that touches the inside of the other
  one intersects it), and \<open>cross p1 p2 p3 p3\<close> is false (a collinear point strictly beyond
  the far endpoint does not).
\<close>

theorem cross_degenerate_examples:
  "cross (Pt 0 0 1) (Pt 2 0 1) (Pt 1 0 1) (Pt 1 0 1) = True \<and>
   cross (Pt 0 0 1) (Pt 1 0 1) (Pt 2 0 1) (Pt 2 0 1) = False"
  by (simp add: cross_def collinear_apart_def cross_other_way_def)

text \<open>
  Claim C2 says that \<open>cross\<close> does not change when the two segments are swapped, nor
  when the endpoints of a segment are swapped. The source documents \<open>cross\<close> as deciding
  whether two segments intersect, a symmetric relation, and in the collinear case as
  deciding whether they overlap within their line. That overlap test is only run along
  the first segment: when the first segment is a single point, its length \<open>d3\<close> and both
  products are 0, no test is made, and every point of the second segment's line is
  reported as crossing. At the points of claim C6, the point \<open>(2,0)\<close> and the segment from
  \<open>(0,0)\<close> to \<open>(1,0)\<close> cross when the point is the first argument and do not when it is
  the second. The test also compares \<open>d1\<close> and \<open>d2\<close>, scaled by the denominator of \<open>b1\<close>
  or \<open>b2\<close>, with \<open>d3\<close>, scaled by that of \<open>a2\<close>: for the point \<open>3/2\<close> inside the segment
  from 0 to 2 the result depends on which endpoint of the segment comes first. Where the
  four points have one denominator and no segment is a single point, all the swaps hold
  (lemmas \<open>cross_swap_second_endpoints\<close>, \<open>cross_swap_first_endpoints\<close>,
  \<open>cross_swap_proper_segments\<close>).
\<close>

theorem cross_swap_segments_differs:
  "cross (Pt 0 0 1) (Pt 1 0 1) (Pt 2 0 1) (Pt 2 0 1) = False \<and>
   cross (Pt 2 0 1) (Pt 2 0 1) (Pt 0 0 1) (Pt 1 0 1) = True \<and>
   cross (Pt 0 0 1) (Pt 2 0 1) (Pt 3 0 2) (Pt 3 0 2) = False \<and>
   cross (Pt 2 0 1) (Pt 0 0 1) (Pt 3 0 2) (Pt 3 0 2) = True"
  by (simp add: cross_def collinear_apart_def cross_other_way_def)

section \<open>The generator\<close>

text \<open>
  Claim C7. In every round of the greedy loop, the first element \<open>v\<close> of the vertex tree
  comes first in the order of degree, then index; when its degree is below the maximum,
  the candidate list built for it holds exactly the other vertices whose degree in the
  graph is below the maximum and that are not adjacent to \<open>v\<close>, each with its squared
  distance to \<open>v\<close>, sorted by that distance and then by index. (For a vertex found
  later in the scan the list leaves out the vertices before it, lemma
  \<open>candidates_at_position\<close>.)
\<close>

theorem candidates_of_first_vertex:
  assumes "round_state n ps es (v # rest)"
    and "param v < MAXDEGREE"
  shows "(\<forall>u \<in> set rest. closer v u) \<and>
    (\<exists>vl. candidates n ps es (v # rest) 0 = Some vl \<and>
      vindex ` set vl =
        {u. 0 \<le> u \<and> u < n \<and> u \<noteq> vindex v \<and> degree es u < MAXDEGREE \<and> \<not> adjacent es u (vindex v)} \<and>
      (\<forall>c \<in> set vl. param c = sqdist (ps ! nat (vindex c)) (ps ! nat (vindex v))) \<and>
      sorted_wrt closer vl)"
proof -
  from round_state_inv [OF assms(1)] have so: "sorted_wrt closer (v # rest)"
    and d: "distinct (map vindex (v # rest))"
    and im: "vindex ` set (v # rest) = {0..<n}"
    and pa: "\<forall>w \<in> set (v # rest). param w = degree es (vindex w)"
    by (simp_all add: generator_inv_def)
  from candidates_at_position [OF d generator_inv_length [OF round_state_inv [OF assms(1)]], of 0 ps es]
  obtain vl where
    c: "candidates n ps es (v # rest) 0 = Some vl" and
    s: "vindex ` set vl =
      {vindex kv | kv. kv \<in> set rest \<and> param kv < MAXDEGREE \<and> \<not> adjacent es (vindex kv) (vindex v)}" and
    r: "\<forall>c \<in> set vl. param c = sqdist (ps ! nat (vindex c)) (ps ! nat (vindex v))"
       "sorted_wrt closer vl"
    by auto
  have "{vindex kv | kv. kv \<in> set rest \<and> param kv < MAXDEGREE \<and> \<not> adjacent es (vindex kv) (vindex v)} =
    {u. 0 \<le> u \<and> u < n \<and> u \<noteq> vindex v \<and> degree es u < MAXDEGREE \<and> \<not> adjacent es u (vindex v)}"
    (is "?A = ?B")
  proof
    show "?A \<subseteq> ?B"
    proof
      fix u assume "u \<in> ?A"
      then obtain kv where kv: "kv \<in> set rest" "u = vindex kv" "param kv < MAXDEGREE"
        "\<not> adjacent es (vindex kv) (vindex v)" by blast
      from kv(1) im have "vindex kv \<in> {0..<n}" by auto
      moreover from kv(1) d have "vindex kv \<noteq> vindex v" by (metis distinct.simps(2) image_eqI list.simps(9) set_map)
      moreover from kv(1) pa have "param kv = degree es (vindex kv)" by simp
      ultimately show "u \<in> ?B" using kv by auto
    qed
    show "?B \<subseteq> ?A"
    proof
      fix u assume "u \<in> ?B"
      then have u: "u \<in> {0..<n}" "u \<noteq> vindex v" "degree es u < MAXDEGREE" "\<not> adjacent es u (vindex v)"
        by auto
      from u(1) im have "u \<in> vindex ` set (v # rest)" by blast
      then obtain kv where kv: "kv \<in> set (v # rest)" "vindex kv = u" by blast
      with u(2) have "kv \<in> set rest" by auto
      moreover from kv pa have "param kv = degree es u" by auto
      ultimately show "u \<in> ?A" using u kv(2) by auto
    qed
  qed
  with c s r so show ?thesis by auto
qed

text \<open>
  The witness: the second round on four points. The first round has joined the points 0
  and 2; the tree starts with vertex 1, and its candidates are the three other vertices.
\<close>

theorem candidates_of_first_vertex_witness:
  "round_state 4 example_points [Edge 0 2]
     [\<lparr>param = 0, vindex = 1\<rparr>, \<lparr>param = 0, vindex = 3\<rparr>, \<lparr>param = 1, vindex = 0\<rparr>,
        \<lparr>param = 1, vindex = 2\<rparr>] \<and>
   candidates 4 example_points [Edge 0 2]
     [\<lparr>param = 0, vindex = 1\<rparr>, \<lparr>param = 0, vindex = 3\<rparr>, \<lparr>param = 1, vindex = 0\<rparr>,
        \<lparr>param = 1, vindex = 2\<rparr>] 0 =
     Some [\<lparr>param = 4, vindex = 2\<rparr>, \<lparr>param = 4, vindex = 3\<rparr>, \<lparr>param = 8, vindex = 0\<rparr>]"
proof -
  let ?vs = "[\<lparr>param = 0, vindex = 3\<rparr>, \<lparr>param = 1, vindex = 0\<rparr>, \<lparr>param = 1, vindex = 2\<rparr>]"
  have r: "round_state 4 example_points [Edge 0 2] (\<lparr>param = 0, vindex = 1\<rparr> # ?vs)"
    using next_round [OF first_round example_first_round] .
  have p: "param \<lparr>param = 0, vindex = 1\<rparr> < MAXDEGREE" by (simp add: MAXDEGREE_def)
  from candidates_of_first_vertex [OF r p] r show ?thesis
    by (simp add: generator_defs example_points_def)
qed



end
